theory Spec2Isabelle
  imports Main "HOL-Library.Multiset"
begin

section \<open>Names\<close>

text \<open>
  A name is a Python \<open>str\<close>: a sequence of code points. The model holds the names
  whose code points are below 256, one \<open>char\<close> per code point (the first 256 code
  points of Unicode), and reads a \<open>char\<close> through \<open>of_char\<close>.
\<close>

definition TEMP_PREFIX :: string where
  "TEMP_PREFIX = ''__dftemp_''"

definition MAX_FOLDERS :: nat where
  "MAX_FOLDERS = 99"

definition MAX_FILES_PER_FOLDER :: nat where
  "MAX_FILES_PER_FOLDER = 255"

definition code :: "char \<Rightarrow> nat" where
  "code c = of_char c"

text \<open>
  \<open>str.lower\<close> on one code point below 256: the letters A..Z and the accented capitals
  U+00C0..U+00DE (U+00D7, the multiplication sign, apart) move up by 32.
\<close>

definition lower_char :: "char \<Rightarrow> char" where
  "lower_char c =
     (if (65 \<le> code c \<and> code c \<le> 90) \<or> (192 \<le> code c \<and> code c \<le> 222 \<and> code c \<noteq> 215)
      then char_of (code c + 32) else c)"

definition lower :: "string \<Rightarrow> string" where
  "lower s = map lower_char s"

text \<open>The class \<open>\d\<close> of the regular expression: below 256 these are 0..9 only.\<close>

definition re_digit :: "char \<Rightarrow> bool" where
  "re_digit c = (48 \<le> code c \<and> code c \<le> 57)"

text \<open>
  \<open>str.isdigit\<close>: every character is a digit and there is at least one. Below 256 the
  digits of \<open>isdigit\<close> are 0..9 and the superscripts U+00B2, U+00B3 and U+00B9.
\<close>

definition isdigit_char :: "char \<Rightarrow> bool" where
  "isdigit_char c = (re_digit c \<or> code c = 178 \<or> code c = 179 \<or> code c = 185)"

definition isdigit :: "string \<Rightarrow> bool" where
  "isdigit s = (s \<noteq> [] \<and> list_all isdigit_char s)"

definition endswith :: "string \<Rightarrow> string \<Rightarrow> bool" where
  "endswith s suffix = (length suffix \<le> length s \<and> drop (length s - length suffix) s = suffix)"

datatype error =
    ValueError
  | TypeError
  | FileNotFoundError
  | IsADirectoryError
  | NotADirectoryError
  | DirectoryNotEmpty
  | OutsideDirectory

section \<open>The natural sort key\<close>

datatype token = Txt string | Num nat

text \<open>
  \<open>re.split(r'(\d+)', s)\<close>: the text before the first run of digits, that run, and the
  split of what follows it; the list has odd length, text at the even positions (empty
  where two runs meet the ends) and the maximal digit runs at the odd ones.
\<close>

function re_split :: "string \<Rightarrow> string list" where
  "re_split s =
     (let a = takeWhile (\<lambda>c. \<not> re_digit c) s; r = dropWhile (\<lambda>c. \<not> re_digit c) s
      in if r = [] then [a]
         else a # takeWhile re_digit r # re_split (dropWhile re_digit r))"
  by pat_completeness auto
termination
proof (relation "measure length")
  show "wf (measure length)" by simp
next
  fix s :: string and a r
  assume r: "r = dropWhile (\<lambda>c. \<not> re_digit c) s" and ne: "r \<noteq> []"
  from ne obtain c cs where rc: "r = c # cs" by (cases r) auto
  have "length (dropWhile re_digit r) \<le> length cs"
  proof -
    have "\<not> \<not> re_digit (hd r)" using ne unfolding r by (rule hd_dropWhile)
    then have "re_digit c" using rc by simp
    then have "dropWhile re_digit r = dropWhile re_digit cs" using rc by simp
    then show ?thesis by (simp add: length_dropWhile_le)
  qed
  moreover have "length r \<le> length s" using r by (simp add: length_dropWhile_le)
  ultimately show "(dropWhile re_digit r, s) \<in> measure length" using rc by simp
qed

declare re_split.simps [simp del]

text \<open>\<open>int(part)\<close> on a string of the digits 0..9.\<close>

definition digit_val :: "char \<Rightarrow> nat" where
  "digit_val c = code c - 48"

definition int_of_digits :: "string \<Rightarrow> nat" where
  "int_of_digits s = foldl (\<lambda>acc c. 10 * acc + digit_val c) 0 s"

text \<open>
  \<open>int\<close> accepts the decimal digits only: on a superscript digit, which \<open>isdigit\<close>
  accepts, it raises ValueError.
\<close>

definition py_int :: "string \<Rightarrow> error + nat" where
  "py_int s = (if s \<noteq> [] \<and> list_all re_digit s then Inr (int_of_digits s) else Inl ValueError)"

fun make_parts :: "string list \<Rightarrow> token list \<Rightarrow> error + token list" where
  "make_parts [] parts = Inr parts"
| "make_parts (part # rest) parts =
     (if isdigit part
      then (case py_int part of
              Inl e \<Rightarrow> Inl e
            | Inr n \<Rightarrow> make_parts rest (parts @ [Num n]))
      else make_parts rest (parts @ [Txt part]))"

definition natural_sort_key :: "string \<Rightarrow> error + token list" where
  "natural_sort_key text = make_parts (re_split (lower text)) []"

subsection \<open>Comparing keys\<close>

text \<open>Python compares two \<open>str\<close> by code point, a proper prefix first.\<close>

fun str_lt :: "string \<Rightarrow> string \<Rightarrow> bool" where
  "str_lt [] [] = False"
| "str_lt [] (y # ys) = True"
| "str_lt (x # xs) [] = False"
| "str_lt (x # xs) (y # ys) = (if x = y then str_lt xs ys else code x < code y)"

text \<open>\<open><\<close> between a \<open>str\<close> and an \<open>int\<close> raises TypeError.\<close>

fun token_lt :: "token \<Rightarrow> token \<Rightarrow> error + bool" where
  "token_lt (Txt a) (Txt b) = Inr (str_lt a b)"
| "token_lt (Num m) (Num n) = Inr (m < n)"
| "token_lt (Txt a) (Num n) = Inl TypeError"
| "token_lt (Num m) (Txt b) = Inl TypeError"

text \<open>
  \<open><\<close> between two lists: the first position where the elements are not equal decides,
  with \<open><\<close> on those two elements; without one, the shorter list is the smaller.
\<close>

fun key_lt :: "token list \<Rightarrow> token list \<Rightarrow> error + bool" where
  "key_lt [] [] = Inr False"
| "key_lt [] (y # ys) = Inr True"
| "key_lt (x # xs) [] = Inr False"
| "key_lt (x # xs) (y # ys) = (if x = y then key_lt xs ys else token_lt x y)"

subsection \<open>\<open>list.sort(key=natural_sort_key)\<close>\<close>

text \<open>
  The sort calls the key function once on every element, in order, before it compares
  anything; an exception of the key function leaves the sort.
\<close>

fun compute_keys :: "string list \<Rightarrow> error + (token list \<times> string) list" where
  "compute_keys [] = Inr []"
| "compute_keys (x # xs) =
     (case natural_sort_key x of
        Inl e \<Rightarrow> Inl e
      | Inr k \<Rightarrow> (case compute_keys xs of
                   Inl e \<Rightarrow> Inl e
                 | Inr ks \<Rightarrow> Inr ((k, x) # ks)))"

text \<open>
  The sort is stable and compares keys with \<open><\<close> only. It is modelled as the stable
  insertion sort: an element goes before the first element whose key is not smaller
  than its own.
\<close>

fun insort_lt :: "token list \<times> string \<Rightarrow> (token list \<times> string) list \<Rightarrow> error + (token list \<times> string) list" where
  "insort_lt x [] = Inr [x]"
| "insort_lt x (y # ys) =
     (case key_lt (fst y) (fst x) of
        Inl e \<Rightarrow> Inl e
      | Inr True \<Rightarrow> (case insort_lt x ys of Inl e \<Rightarrow> Inl e | Inr zs \<Rightarrow> Inr (y # zs))
      | Inr False \<Rightarrow> Inr (x # y # ys))"

fun sort_keyed :: "(token list \<times> string) list \<Rightarrow> error + (token list \<times> string) list" where
  "sort_keyed [] = Inr []"
| "sort_keyed (x # xs) =
     (case sort_keyed xs of Inl e \<Rightarrow> Inl e | Inr ys \<Rightarrow> insort_lt x ys)"

definition natural_sort :: "string list \<Rightarrow> error + string list" where
  "natural_sort names =
     (case compute_keys names of
        Inl e \<Rightarrow> Inl e
      | Inr ks \<Rightarrow> (case sort_keyed ks of Inl e \<Rightarrow> Inl e | Inr ys \<Rightarrow> Inr (map snd ys)))"

section \<open>The directory tree\<close>

text \<open>
  A directory lists its entries by name, in the order \<open>os.listdir\<close> returns them; an
  entry is a regular file, told apart by a number, or a directory. The operating system
  keeps the names of one directory distinct and plain (\<open>wf_dir\<close> below).
\<close>

datatype node = File nat | Dir "(string \<times> node) list"

type_synonym dir = "(string \<times> node) list"

fun isdir :: "node \<Rightarrow> bool" where
  "isdir (Dir es) = True"
| "isdir (File c) = False"

fun isfile :: "node \<Rightarrow> bool" where
  "isfile (File c) = True"
| "isfile (Dir es) = False"

definition listdir :: "dir \<Rightarrow> string list" where
  "listdir d = map fst d"

definition plain_name :: "string \<Rightarrow> bool" where
  "plain_name n = (n \<noteq> [] \<and> n \<noteq> ''.'' \<and> n \<noteq> ''..'' \<and> CHR ''/'' \<notin> set n \<and> CHR 0x00 \<notin> set n)"

definition wf_dir :: "dir \<Rightarrow> bool" where
  "wf_dir d = (distinct (map fst d) \<and> (\<forall>n \<in> set (map fst d). plain_name n))"

subsection \<open>\<open>os.rename\<close>\<close>

text \<open>
  \<open>os.rename(os.path.join(base_dir, src), os.path.join(base_dir, dst))\<close> on the entries
  of \<open>base_dir\<close>, as the Python documentation gives it for POSIX: a missing source raises
  FileNotFoundError; renaming an entry to its own name does nothing; a free destination
  takes the entry; an existing destination is replaced without notice when both are
  files, or both are directories and the destination is empty, and raises otherwise.
  When \<open>src\<close> or \<open>dst\<close> is not a plain name the joined path is not an entry of
  \<open>base_dir\<close>; the model does not follow the call there and reports OutsideDirectory.
  Permissions, name length limits and device failures are not modelled.
\<close>

fun replace_error :: "node \<Rightarrow> node \<Rightarrow> error option" where
  "replace_error (File c) (File c') = None"
| "replace_error (File c) (Dir es) = Some IsADirectoryError"
| "replace_error (Dir es) (File c) = Some NotADirectoryError"
| "replace_error (Dir es) (Dir es') = (if es' = [] then None else Some DirectoryNotEmpty)"

definition move_entry :: "string \<Rightarrow> string \<Rightarrow> dir \<Rightarrow> dir" where
  "move_entry src dst d = map (\<lambda>(k, v). if k = src then (dst, v) else (k, v)) d"

definition remove_entry :: "string \<Rightarrow> dir \<Rightarrow> dir" where
  "remove_entry name d = filter (\<lambda>(k, v). k \<noteq> name) d"

definition os_rename :: "string \<Rightarrow> string \<Rightarrow> dir \<Rightarrow> error + dir" where
  "os_rename src dst d =
     (if \<not> plain_name src \<or> \<not> plain_name dst then Inl OutsideDirectory
      else case map_of d src of
             None \<Rightarrow> Inl FileNotFoundError
           | Some n \<Rightarrow>
               if src = dst then Inr d
               else (case map_of d dst of
                       None \<Rightarrow> Inr (move_entry src dst d)
                     | Some m \<Rightarrow>
                         (case replace_error n m of
                            Some e \<Rightarrow> Inl e
                          | None \<Rightarrow> Inr (move_entry src dst (remove_entry dst d)))))"

subsection \<open>\<open>rename_two_phase\<close>\<close>

text \<open>
  Each loop threads the directory through its calls of \<open>os.rename\<close>. An exception leaves
  the function at once; the directory stays as the calls before it left it, so the error
  comes with that directory.
\<close>

fun phase1 :: "(nat \<Rightarrow> string) \<Rightarrow> nat \<Rightarrow> string list \<Rightarrow> string list \<Rightarrow> (string \<times> string) list \<Rightarrow> dir
    \<Rightarrow> error \<times> dir + string list \<times> (string \<times> string) list \<times> dir" where
  "phase1 make_final_name i [] temp_names mapping d = Inr (temp_names, mapping, d)"
| "phase1 make_final_name i (old_name # rest) temp_names mapping d =
     (let final_name = make_final_name i;
          temp_name = TEMP_PREFIX @ final_name
      in case os_rename old_name temp_name d of
           Inl e \<Rightarrow> Inl (e, d)
         | Inr d' \<Rightarrow>
             phase1 make_final_name (i + 1) rest
               (temp_names @ [temp_name]) (mapping @ [(old_name, final_name)]) d')"

fun phase2 :: "(string \<times> string \<times> string) list \<Rightarrow> dir \<Rightarrow> error \<times> dir + dir" where
  "phase2 [] d = Inr d"
| "phase2 ((temp_name, (old_name, final_name)) # rest) d =
     (case os_rename temp_name final_name d of
        Inl e \<Rightarrow> Inl (e, d)
      | Inr d' \<Rightarrow> phase2 rest d')"

definition rename_two_phase :: "string list \<Rightarrow> (nat \<Rightarrow> string) \<Rightarrow> dir
    \<Rightarrow> error \<times> dir + (string \<times> string) list \<times> dir" where
  "rename_two_phase items make_final_name d =
     (case phase1 make_final_name 0 items [] [] d of
        Inl ed \<Rightarrow> Inl ed
      | Inr (temp_names, mapping, d1) \<Rightarrow>
          (case phase2 (zip temp_names mapping) d1 of
             Inl ed \<Rightarrow> Inl ed
           | Inr d2 \<Rightarrow> Inr (mapping, d2)))"

section \<open>The driver\<close>

subsection \<open>Final names\<close>

text \<open>\<open>str\<close> of a natural number, and the format \<open>0wd\<close>: zeros on the left up to width w.\<close>

fun str_nat :: "nat \<Rightarrow> string" where
  "str_nat n = (if n < 10 then [char_of (48 + n)] else str_nat (n div 10) @ [char_of (48 + n mod 10)])"

declare str_nat.simps [simp del]

definition zero_pad :: "nat \<Rightarrow> nat \<Rightarrow> string" where
  "zero_pad w n = replicate (w - length (str_nat n)) (CHR ''0'') @ str_nat n"

text \<open>The two generators the driver passes: \<open>f"{i + 1:03d}.mp3"\<close> and \<open>f"{i + 1:02d}"\<close>.\<close>

definition file_final_name :: "nat \<Rightarrow> string" where
  "file_final_name i = zero_pad 3 (i + 1) @ ''.mp3''"

definition folder_final_name :: "nat \<Rightarrow> string" where
  "folder_final_name i = zero_pad 2 (i + 1)"

subsection \<open>Listing\<close>

definition collect_folders :: "dir \<Rightarrow> error + string list" where
  "collect_folders root = natural_sort (map fst (filter (\<lambda>(name, n). isdir n) root))"

definition collect_mp3s :: "dir \<Rightarrow> error + string list" where
  "collect_mp3s folder =
     natural_sort (map fst (filter (\<lambda>(name, n). isfile n \<and> endswith (lower name) ''.mp3'') folder))"

subsection \<open>\<open>process_sd_card\<close>\<close>

text \<open>One constructor for each \<open>print\<close> of the source, holding the values it formats.\<close>

datatype msg =
    Not_a_directory
  | No_subdirectories
  | Too_many_folders nat nat
  | No_mp3_warning string
  | Too_many_files string nat nat
  | Folder_header string
  | File_renamed string string
  | File_unchanged string
  | Folder_renames_header
  | Folder_renamed string string
  | Folder_unchanged string
  | Done nat nat
  | Traceback error

text \<open>
  What a run leaves: the exit status, the lines on standard output and on the error
  stream, and the tree. \<open>sys.exit(1)\<close> after a message on the error stream, and an
  exception nobody catches (the interpreter prints the traceback on the error stream),
  both end the process with status 1.
\<close>

record run =
  status :: nat
  stdout :: "msg list"
  stderr :: "msg list"
  tree :: "node option"

definition sys_exit_1 :: "msg \<Rightarrow> msg list \<Rightarrow> node option \<Rightarrow> run" where
  "sys_exit_1 m out t = \<lparr>status = 1, stdout = out, stderr = [m], tree = t\<rparr>"

definition uncaught :: "error \<Rightarrow> msg list \<Rightarrow> node option \<Rightarrow> run" where
  "uncaught e out t = \<lparr>status = 1, stdout = out, stderr = [Traceback e], tree = t\<rparr>"

definition report_files :: "(string \<times> string) list \<Rightarrow> msg list" where
  "report_files file_mapping =
     map (\<lambda>(old, new). if old \<noteq> new then File_renamed old new else File_unchanged old) file_mapping"

definition report_folders :: "(string \<times> string) list \<Rightarrow> msg list" where
  "report_folders folder_mapping =
     map (\<lambda>(old, new). if old \<noteq> new then Folder_renamed old new else Folder_unchanged old) folder_mapping"

definition set_entry :: "string \<Rightarrow> node \<Rightarrow> dir \<Rightarrow> dir" where
  "set_entry name v d = map (\<lambda>(k, x). if k = name then (k, v) else (k, x)) d"

text \<open>
  The loop over the folders: the root's entries, the output so far and
  \<open>total_files_renamed\<close> go from one folder to the next. A folder that is no longer a
  directory of the root makes \<open>os.listdir\<close> raise.
\<close>

fun rename_files :: "string list \<Rightarrow> dir \<Rightarrow> msg list \<Rightarrow> nat \<Rightarrow> run + dir \<times> msg list \<times> nat" where
  "rename_files [] root out total_files_renamed = Inr (root, out, total_files_renamed)"
| "rename_files (folder_name # rest) root out total_files_renamed =
     (case map_of root folder_name of
        None \<Rightarrow> Inl (uncaught FileNotFoundError out (Some (Dir root)))
      | Some (File c) \<Rightarrow> Inl (uncaught NotADirectoryError out (Some (Dir root)))
      | Some (Dir folder) \<Rightarrow>
          (case collect_mp3s folder of
             Inl e \<Rightarrow> Inl (uncaught e out (Some (Dir root)))
           | Inr mp3s \<Rightarrow>
               if mp3s = [] then rename_files rest root (out @ [No_mp3_warning folder_name]) total_files_renamed
               else if length mp3s > MAX_FILES_PER_FOLDER
               then Inl (sys_exit_1 (Too_many_files folder_name (length mp3s) MAX_FILES_PER_FOLDER)
                           out (Some (Dir root)))
               else (case rename_two_phase mp3s file_final_name folder of
                       Inl (e, folder') \<Rightarrow>
                         Inl (uncaught e out (Some (Dir (set_entry folder_name (Dir folder') root))))
                     | Inr (file_mapping, folder') \<Rightarrow>
                         rename_files rest (set_entry folder_name (Dir folder') root)
                           (out @ Folder_header folder_name # report_files file_mapping)
                           (total_files_renamed + length file_mapping))))"

definition process_sd_card :: "node option \<Rightarrow> run" where
  "process_sd_card root =
     (case root of
        Some (Dir entries) \<Rightarrow>
          (case collect_folders entries of
             Inl e \<Rightarrow> uncaught e [] root
           | Inr folders \<Rightarrow>
               if folders = []
               then \<lparr>status = 0, stdout = [No_subdirectories], stderr = [], tree = root\<rparr>
               else if length folders > MAX_FOLDERS
               then sys_exit_1 (Too_many_folders (length folders) MAX_FOLDERS) [] root
               else (case rename_files folders entries [] 0 of
                       Inl r \<Rightarrow> r
                     | Inr (entries1, out, total_files_renamed) \<Rightarrow>
                         (case rename_two_phase folders folder_final_name entries1 of
                            Inl (e, entries2) \<Rightarrow> uncaught e out (Some (Dir entries2))
                          | Inr (folder_mapping, entries2) \<Rightarrow>
                              \<lparr>status = 0,
                               stdout = out @ Folder_renames_header # report_folders folder_mapping
                                          @ [Done (length folder_mapping) total_files_renamed],
                               stderr = [],
                               tree = Some (Dir entries2)\<rparr>)))
      | Some (File c) \<Rightarrow> sys_exit_1 Not_a_directory [] root
      | None \<Rightarrow> sys_exit_1 Not_a_directory [] root)"

section \<open>Shapes of parts and keys\<close>

text \<open>
  A text run holds no digit of \<open>\d\<close>; a digit run is a non-empty string of them. The
  parts of a split alternate between the two, text first and text last, and so do the
  tokens of a key.
\<close>

definition text_run :: "string \<Rightarrow> bool" where
  "text_run a = (\<forall>c\<in>set a. \<not> re_digit c)"

definition digit_run :: "string \<Rightarrow> bool" where
  "digit_run d = (d \<noteq> [] \<and> (\<forall>c\<in>set d. re_digit c))"

fun parts_ok :: "string list \<Rightarrow> bool" where
  "parts_ok [] = False"
| "parts_ok [a] = text_run a"
| "parts_ok (a # d # rest) = (text_run a \<and> digit_run d \<and> parts_ok rest)"

fun key_shape :: "token list \<Rightarrow> bool" where
  "key_shape [] = False"
| "key_shape [t] = (\<exists>a. t = Txt a)"
| "key_shape (t # u # rest) = ((\<exists>a. t = Txt a) \<and> (\<exists>n. u = Num n) \<and> key_shape rest)"

section \<open>Renaming, step by step\<close>

text \<open>\<open>name.startswith(TEMP_PREFIX)\<close>: the name is one of the reserved ones.\<close>

definition reserved :: "string \<Rightarrow> bool" where
  "reserved n = (take (length TEMP_PREFIX) n = TEMP_PREFIX)"

text \<open>
  The calls of \<open>os.rename\<close> that \<open>rename_two_phase\<close> issues when none of them
  raises, as pairs of source and destination in the order of the calls: first every
  item to its temporary name, then every temporary name to its final name.
\<close>

definition renames :: "string list \<Rightarrow> (nat \<Rightarrow> string) \<Rightarrow> (string \<times> string) list" where
  "renames items make_final_name =
     zip items (map (\<lambda>i. TEMP_PREFIX @ make_final_name i) [0..<length items])
     @ zip (map (\<lambda>i. TEMP_PREFIX @ make_final_name i) [0..<length items])
           (map make_final_name [0..<length items])"

fun run_renames :: "(string \<times> string) list \<Rightarrow> dir \<Rightarrow> error \<times> dir + dir" where
  "run_renames [] d = Inr d"
| "run_renames ((src, dst) # rest) d =
     (case os_rename src dst d of
        Inl e \<Rightarrow> Inl (e, d)
      | Inr d' \<Rightarrow> run_renames rest d')"

text \<open>
  A list of calls is free of collisions on a directory when every call succeeds, the
  destination of every call is the name of no entry at the time of the call, and every
  call leaves the number of entries as it was.
\<close>

fun collision_free :: "(string \<times> string) list \<Rightarrow> dir \<Rightarrow> bool" where
  "collision_free [] d = True"
| "collision_free ((src, dst) # rest) d =
     (dst \<notin> set (listdir d)
      \<and> (case os_rename src dst d of
            Inl e \<Rightarrow> False
          | Inr d' \<Rightarrow> length d' = length d \<and> collision_free rest d'))"

text \<open>
  A quiet list of calls replaces nothing: every source is there and every destination is
  free, or is the source itself. The directory then changes by renaming in place.
\<close>

fun quiet :: "(string \<times> string) list \<Rightarrow> dir \<Rightarrow> bool" where
  "quiet [] d = True"
| "quiet ((src, dst) # rest) d =
     (src \<in> set (listdir d) \<and> plain_name src \<and> plain_name dst
      \<and> (src = dst \<or> dst \<notin> set (listdir d))
      \<and> quiet rest (move_entry src dst d))"

fun apply_moves :: "(string \<times> string) list \<Rightarrow> dir \<Rightarrow> dir" where
  "apply_moves [] d = d"
| "apply_moves ((src, dst) # rest) d = apply_moves rest (move_entry src dst d)"

definition rename_keys :: "(string \<Rightarrow> string) \<Rightarrow> dir \<Rightarrow> dir" where
  "rename_keys g d = map (\<lambda>(k, v). (g k, v)) d"

definition rename_map :: "(string \<times> string) list \<Rightarrow> string \<Rightarrow> string" where
  "rename_map al x = (case map_of al x of Some y \<Rightarrow> y | None \<Rightarrow> x)"

section \<open>Properties of the natural sort key\<close>

lemma code_char_of: "n < 256 \<Longrightarrow> code (char_of n) = n"
  by (simp add: code_def)

lemma lower_char_digit: "re_digit c \<Longrightarrow> lower_char c = c"
  by (simp add: lower_char_def re_digit_def)

lemma re_digit_lower_char [simp]: "re_digit (lower_char c) = re_digit c"
proof -
  have "code c < 256" by (simp add: code_def)
  then show ?thesis
    by (auto simp: lower_char_def re_digit_def code_char_of)
qed

lemma re_split_text: "text_run s \<Longrightarrow> re_split s = [s]"
  by (subst re_split.simps) (simp add: text_run_def Let_def)

lemma re_split_parts_ok: "parts_ok (re_split s)"
proof (induction s rule: re_split.induct)
  case (1 s)
  let ?a = "takeWhile (\<lambda>c. \<not> re_digit c) s"
  let ?r = "dropWhile (\<lambda>c. \<not> re_digit c) s"
  have ta: "text_run ?a"
    by (auto simp: text_run_def dest: set_takeWhileD)
  show ?case
  proof (cases "?r = []")
    case True
    then show ?thesis using ta by (subst re_split.simps) (simp add: Let_def)
  next
    case False
    then have "\<not> \<not> re_digit (hd ?r)" by (rule hd_dropWhile)
    then have "takeWhile re_digit ?r \<noteq> []" using False by (cases ?r) auto
    then have dr: "digit_run (takeWhile re_digit ?r)"
      by (auto simp: digit_run_def dest: set_takeWhileD)
    have "parts_ok (re_split (dropWhile re_digit ?r))"
      using "1.IH" [OF refl refl False] .
    then show ?thesis using ta dr False
      by (subst re_split.simps) (simp add: Let_def)
  qed
qed

lemma make_parts_acc:
  "make_parts ps acc = (case make_parts ps [] of Inl e \<Rightarrow> Inl e | Inr k \<Rightarrow> Inr (acc @ k))"
proof (induction ps arbitrary: acc)
  case Nil
  show ?case by simp
next
  case (Cons p ps)
  show ?case
    by (simp add: Cons.IH [of "acc @ _"] Cons.IH [of "[_]"] split: sum.splits)
qed

lemma text_run_not_int: "text_run a \<Longrightarrow> isdigit a \<Longrightarrow> py_int a = Inl ValueError"
  by (cases a) (auto simp: text_run_def isdigit_def py_int_def)

lemma digit_run_isdigit: "digit_run d \<Longrightarrow> isdigit d"
  by (auto simp: digit_run_def isdigit_def isdigit_char_def list_all_iff)

lemma digit_run_int: "digit_run d \<Longrightarrow> py_int d = Inr (int_of_digits d)"
  by (auto simp: digit_run_def py_int_def list_all_iff)

lemma make_parts_text:
  "text_run a \<Longrightarrow> make_parts (a # rest) [] =
     (if isdigit a then Inl ValueError
      else (case make_parts rest [] of Inl e \<Rightarrow> Inl e | Inr k \<Rightarrow> Inr (Txt a # k)))"
  by (simp add: text_run_not_int make_parts_acc [of rest "[_]"] split: sum.splits)

lemma make_parts_digits:
  "digit_run d \<Longrightarrow> make_parts (d # rest) [] =
     (case make_parts rest [] of Inl e \<Rightarrow> Inl e | Inr k \<Rightarrow> Inr (Num (int_of_digits d) # k))"
  by (simp add: digit_run_isdigit digit_run_int make_parts_acc [of rest "[_]"] split: sum.splits)

lemma make_parts_shape: "parts_ok ps \<Longrightarrow> make_parts ps [] = Inr k \<Longrightarrow> key_shape k"
proof (induction ps arbitrary: k rule: parts_ok.induct)
  case 1
  then show ?case by simp
next
  case (2 a)
  then show ?case by (auto simp: make_parts_text simp del: make_parts.simps(2) split: if_splits)
next
  case (3 a d rest)
  then show ?case
    by (auto simp: make_parts_text make_parts_digits simp del: make_parts.simps(2) split: if_splits sum.splits)
qed

lemma natural_sort_key_shape: "natural_sort_key text = Inr k \<Longrightarrow> key_shape k"
  unfolding natural_sort_key_def by (rule make_parts_shape [OF re_split_parts_ok])

lemma key_lt_shape: "key_shape k1 \<Longrightarrow> key_shape k2 \<Longrightarrow> \<exists>b. key_lt k1 k2 = Inr b"
proof (induction k1 arbitrary: k2 rule: key_shape.induct)
  case 1
  then show ?case by simp
next
  case (2 t)
  then show ?case by (cases k2 rule: key_shape.cases) auto
next
  case (3 t u rest)
  then show ?case by (cases k2 rule: key_shape.cases) auto
qed

lemma key_shape_nth:
  "key_shape k \<Longrightarrow> i < length k \<Longrightarrow> (even i \<longrightarrow> (\<exists>a. k ! i = Txt a)) \<and> (odd i \<longrightarrow> (\<exists>n. k ! i = Num n))"
proof (induction k arbitrary: i rule: key_shape.induct)
  case 1
  then show ?case by simp
next
  case (2 t)
  then show ?case by auto
next
  case (3 t u rest)
  show ?case
  proof (cases i)
    case 0
    then show ?thesis using 3 by auto
  next
    case (Suc j)
    show ?thesis
    proof (cases j)
      case 0
      then show ?thesis using 3 Suc by auto
    next
      case (Suc l)
      then show ?thesis using 3 \<open>i = Suc j\<close> by auto
    qed
  qed
qed

lemma split_digits_front:
  assumes "digit_run d" and "r = [] \<or> \<not> re_digit (hd r)"
  shows "takeWhile re_digit (d @ r) = d" and "dropWhile re_digit (d @ r) = r"
proof -
  have all: "\<And>x. x \<in> set d \<Longrightarrow> re_digit x" using assms(1) by (simp add: digit_run_def)
  have "takeWhile re_digit r = []" "dropWhile re_digit r = r"
    using assms(2) by (cases r; simp)+
  then show "takeWhile re_digit (d @ r) = d" "dropWhile re_digit (d @ r) = r"
    using all by (simp_all add: takeWhile_append2 dropWhile_append2)
qed

lemma split_text_front:
  assumes "text_run a" and "digit_run d"
  shows "takeWhile (\<lambda>c. \<not> re_digit c) (a @ d @ r) = a"
    and "dropWhile (\<lambda>c. \<not> re_digit c) (a @ d @ r) = d @ r"
proof -
  have all: "\<And>x. x \<in> set a \<Longrightarrow> \<not> re_digit x" using assms(1) by (simp add: text_run_def)
  obtain c cs where d: "d = c # cs" and c: "re_digit c"
    using assms(2) by (cases d) (auto simp: digit_run_def)
  show "takeWhile (\<lambda>c. \<not> re_digit c) (a @ d @ r) = a"
    "dropWhile (\<lambda>c. \<not> re_digit c) (a @ d @ r) = d @ r"
    using all d c by (simp_all add: takeWhile_append2 dropWhile_append2)
qed

lemma re_split_text_digits:
  assumes "text_run a" and "digit_run d" and "r = [] \<or> \<not> re_digit (hd r)"
  shows "re_split (a @ d @ r) = a # d # re_split r"
proof -
  have "d @ r \<noteq> []" using assms(2) by (simp add: digit_run_def)
  then show ?thesis
    by (subst re_split.simps)
      (simp add: Let_def split_text_front [OF assms(1,2)] split_digits_front [OF assms(2,3)])
qed

lemma first_runs:
  assumes "\<not> text_run p"
  obtains a d r where "p = a @ d @ r" "text_run a" "digit_run d" "r = [] \<or> \<not> re_digit (hd r)"
proof -
  let ?a = "takeWhile (\<lambda>c. \<not> re_digit c) p"
  let ?q = "dropWhile (\<lambda>c. \<not> re_digit c) p"
  let ?d = "takeWhile re_digit ?q"
  let ?r = "dropWhile re_digit ?q"
  have q: "?q \<noteq> []" using assms by (auto simp: text_run_def)
  then have "\<not> \<not> re_digit (hd ?q)" by (rule hd_dropWhile)
  then have "?d \<noteq> []" using q by (cases ?q) auto
  then have d: "digit_run ?d" by (auto simp: digit_run_def dest: set_takeWhileD)
  have a: "text_run ?a" by (auto simp: text_run_def dest: set_takeWhileD)
  have r: "?r = [] \<or> \<not> re_digit (hd ?r)" using hd_dropWhile [of re_digit ?q] by blast
  have "p = ?a @ ?d @ ?r" by simp
  then show thesis using a d r that by blast
qed

lemma re_split_append:
  assumes "p = [] \<or> \<not> re_digit (last p)" and "digit_run d" and "r = [] \<or> \<not> re_digit (hd r)"
  shows "re_split (p @ d @ r) = re_split p @ d # re_split r"
  using assms(1)
proof (induction p rule: length_induct)
  case (1 p)
  show ?case
  proof (cases "text_run p")
    case True
    then show ?thesis
      using re_split_text_digits [OF True assms(2,3)] by (simp add: re_split_text)
  next
    case False
    then obtain a e q where p: "p = a @ e @ q" and a: "text_run a" and e: "digit_run e"
      and q: "q = [] \<or> \<not> re_digit (hd q)"
      by (rule first_runs)
    have qne: "q \<noteq> []"
    proof
      assume "q = []"
      then have "last p = last e" using p e by (simp add: digit_run_def)
      moreover have "re_digit (last e)" using e by (simp add: digit_run_def)
      moreover have "p \<noteq> []" using p e by (simp add: digit_run_def)
      ultimately show False using "1.prems" by simp
    qed
    then have lastq: "q = [] \<or> \<not> re_digit (last q)" using "1.prems" p by simp
    have "length q < length p" using p e by (simp add: digit_run_def)
    then have IH: "re_split (q @ d @ r) = re_split q @ d # re_split r"
      using "1.IH" lastq by blast
    have hdq: "q @ d @ r = [] \<or> \<not> re_digit (hd (q @ d @ r))" using q qne by simp
    have "re_split (p @ d @ r) = a # e # re_split (q @ d @ r)"
      using re_split_text_digits [OF a e hdq] p by simp
    moreover have "re_split p = a # e # re_split q"
      using re_split_text_digits [OF a e q] p by simp
    ultimately show ?thesis using IH by simp
  qed
qed

lemma make_parts_append:
  "make_parts (xs @ ys) [] =
     (case make_parts xs [] of
        Inl e \<Rightarrow> Inl e
      | Inr k \<Rightarrow> (case make_parts ys [] of Inl e \<Rightarrow> Inl e | Inr k' \<Rightarrow> Inr (k @ k')))"
proof (induction xs)
  case Nil
  show ?case by (simp split: sum.splits)
next
  case (Cons x xs)
  show ?case
    using Cons.IH
    by (simp add: make_parts_acc [of "xs @ ys" "[_]"] make_parts_acc [of xs "[_]"] split: sum.splits)
qed

lemma key_lt_common_prefix: "key_lt (k @ a) (k @ b) = key_lt a b"
  by (induction k) simp_all

lemma lower_digit_run: "digit_run d \<Longrightarrow> lower d = d"
  by (simp add: digit_run_def lower_def lower_char_digit map_idI)

lemma lower_append: "lower (a @ b) = lower a @ lower b"
  by (simp add: lower_def)

lemma lower_last: "p = [] \<or> \<not> re_digit (last p) \<Longrightarrow> lower p = [] \<or> \<not> re_digit (last (lower p))"
  by (auto simp: lower_def last_map)

lemma lower_hd: "r = [] \<or> \<not> re_digit (hd r) \<Longrightarrow> lower r = [] \<or> \<not> re_digit (hd (lower r))"
  by (auto simp: lower_def hd_map)

lemma natural_sort_key_append:
  assumes "p = [] \<or> \<not> re_digit (last p)" and "digit_run d" and "r = [] \<or> \<not> re_digit (hd r)"
  shows "natural_sort_key (p @ d @ r) =
     (case natural_sort_key p of
        Inl e \<Rightarrow> Inl e
      | Inr kp \<Rightarrow> (case natural_sort_key r of
                    Inl e \<Rightarrow> Inl e
                  | Inr kr \<Rightarrow> Inr (kp @ Num (int_of_digits d) # kr)))"
proof -
  have "re_split (lower (p @ d @ r)) = re_split (lower p) @ d # re_split (lower r)"
    using re_split_append [OF lower_last [OF assms(1)] assms(2) lower_hd [OF assms(3)]]
    by (simp add: lower_append lower_digit_run [OF assms(2)])
  then show ?thesis
    by (simp add: natural_sort_key_def make_parts_append make_parts_digits [OF assms(2)]
        del: make_parts.simps(2) split: sum.splits)
qed

lemma natural_sort_pair:
  assumes "natural_sort_key a = Inr ka" and "natural_sort_key b = Inr kb"
    and "key_lt ka kb = Inr True" and "key_lt kb ka = Inr False"
  shows "natural_sort [a, b] = Inr [a, b]" and "natural_sort [b, a] = Inr [a, b]"
  using assms by (simp_all add: natural_sort_def)

lemma str_lt_irrefl: "\<not> str_lt a a"
  by (induction a) simp_all

lemma lower_text_run: "text_run t \<Longrightarrow> text_run (lower t)"
  by (simp add: text_run_def lower_def)

lemma natural_sort_key_text:
  assumes "text_run t"
  shows "natural_sort_key t = (if isdigit (lower t) then Inl ValueError else Inr [Txt (lower t)])"
  using make_parts_text [OF lower_text_run [OF assms], of "[]"]
  by (simp add: natural_sort_key_def re_split_text [OF lower_text_run [OF assms]] del: make_parts.simps(2))

lemma natural_sort_key_lower: "lower a = lower b \<Longrightarrow> natural_sort_key a = natural_sort_key b"
  by (simp add: natural_sort_key_def)

text \<open>
  Where both names have a key, the keys compare the embedded integers by value and the
  text without regard to case. Two names that agree, up to case, on the text before a
  maximal run of digits, and whose runs there have values \<open>v1 < v2\<close>, have keys in that
  order whatever the lengths of the two runs, and the sort puts the name with the
  smaller integer first. The keys of two names without digits compare as their
  lower-case texts do.
\<close>

lemma key_lt_by_value:
  assumes low: "lower p1 = lower p2" and p1: "p1 = [] \<or> \<not> re_digit (last p1)"
    and d1: "digit_run d1" and d2: "digit_run d2"
    and r1: "r1 = [] \<or> \<not> re_digit (hd r1)" and r2: "r2 = [] \<or> \<not> re_digit (hd r2)"
    and v: "int_of_digits d1 < int_of_digits d2"
    and e1: "natural_sort_key (p1 @ d1 @ r1) = Inr k1"
    and e2: "natural_sort_key (p2 @ d2 @ r2) = Inr k2"
  shows "key_lt k1 k2 = Inr True" and "key_lt k2 k1 = Inr False"
    and "natural_sort [p2 @ d2 @ r2, p1 @ d1 @ r1] = Inr [p1 @ d1 @ r1, p2 @ d2 @ r2]"
    and "natural_sort [p1 @ d1 @ r1, p2 @ d2 @ r2] = Inr [p1 @ d1 @ r1, p2 @ d2 @ r2]"
proof -
  have p2: "p2 = [] \<or> \<not> re_digit (last p2)"
  proof (cases "p2 = []")
    case False
    then have ne: "p1 \<noteq> []" using low by (auto simp: lower_def)
    have "re_digit (last p2) = re_digit (last (lower p2))"
      using False by (simp add: lower_def last_map)
    also have "\<dots> = re_digit (last (lower p1))" using low by simp
    also have "\<dots> = re_digit (last p1)" using ne by (simp add: lower_def last_map)
    finally show ?thesis using p1 ne by simp
  qed simp
  have "lower p2 = lower p1" using low by simp
  then have same: "natural_sort_key p2 = natural_sort_key p1"
    by (rule natural_sort_key_lower)
  have "(case natural_sort_key p1 of
           Inl e \<Rightarrow> Inl e
         | Inr kp \<Rightarrow> (case natural_sort_key r1 of
                        Inl e \<Rightarrow> Inl e
                      | Inr kr \<Rightarrow> Inr (kp @ Num (int_of_digits d1) # kr))) = Inr k1"
    using e1 natural_sort_key_append [OF p1 d1 r1] by simp
  then obtain kp kr1 where kp: "natural_sort_key p1 = Inr kp"
    and k1: "k1 = kp @ Num (int_of_digits d1) # kr1"
    by (auto split: sum.splits)
  have "(case natural_sort_key p2 of
           Inl e \<Rightarrow> Inl e
         | Inr kp \<Rightarrow> (case natural_sort_key r2 of
                        Inl e \<Rightarrow> Inl e
                      | Inr kr \<Rightarrow> Inr (kp @ Num (int_of_digits d2) # kr))) = Inr k2"
    using e2 natural_sort_key_append [OF p2 d2 r2] by simp
  then obtain kr2 where k2: "k2 = kp @ Num (int_of_digits d2) # kr2"
    using same kp by (auto split: sum.splits)
  show lt: "key_lt k1 k2 = Inr True" and gt: "key_lt k2 k1 = Inr False"
    using v by (simp_all add: k1 k2 key_lt_common_prefix)
  show "natural_sort [p2 @ d2 @ r2, p1 @ d1 @ r1] = Inr [p1 @ d1 @ r1, p2 @ d2 @ r2]"
    by (rule natural_sort_pair(2) [OF e1 e2 lt gt])
  show "natural_sort [p1 @ d1 @ r1, p2 @ d2 @ r2] = Inr [p1 @ d1 @ r1, p2 @ d2 @ r2]"
    by (rule natural_sort_pair(1) [OF e1 e2 lt gt])
qed

lemma key_lt_text:
  assumes "text_run t1" and "text_run t2"
    and "natural_sort_key t1 = Inr k1" and "natural_sort_key t2 = Inr k2"
  shows "key_lt k1 k2 = Inr (str_lt (lower t1) (lower t2))"
proof -
  have "k1 = [Txt (lower t1)]" using assms(1,3) by (simp add: natural_sort_key_text split: if_splits)
  moreover have "k2 = [Txt (lower t2)]" using assms(2,4) by (simp add: natural_sort_key_text split: if_splits)
  ultimately show ?thesis by (simp add: str_lt_irrefl)
qed

text \<open>
  C3. The claim gives every pair of names an order by the values of their embedded
  integers. The code does not: \<open>natural_sort_key\<close> tells a digit run by \<open>isdigit\<close>,
  which also accepts a text run made of superscript digits only, and \<open>int\<close> then raises
  ValueError. For two folders named "1" and "2", each followed by a superscript two
  (U+00B2), the claim wants the first before the second, as 1 < 2; the split of the
  first name is "", "1" and the superscript, the superscript passes \<open>isdigit\<close>, \<open>int\<close>
  rejects it, and the sort of the two names raises instead of returning them in order.
\<close>

theorem superscript_names_raise:
  "re_split (lower [CHR ''1'', CHR 0xB2]) = ['''', ''1'', [CHR 0xB2]]
   \<and> isdigit [CHR 0xB2]
   \<and> py_int [CHR 0xB2] = Inl ValueError
   \<and> natural_sort_key [CHR ''1'', CHR 0xB2] = Inl ValueError
   \<and> natural_sort [[CHR ''2'', CHR 0xB2], [CHR ''1'', CHR 0xB2]] = Inl ValueError"
  by code_simp

text \<open>
  C9, as amended. For every pair of names that have keys, the tokens at the same
  position of the two keys are of the same kind (text at the even positions, integers at
  the odd ones), so comparing the keys never sets a text token against an integer token
  and always returns a truth value. For "A1" and "1A" the texts "a" and "" at position
  0 decide.
\<close>

theorem natural_sort_key_same_kinds:
  assumes "natural_sort_key a = Inr ka" and "natural_sort_key b = Inr kb"
  shows "(\<forall>i. i < length ka \<and> i < length kb \<longrightarrow> ((\<exists>t. ka ! i = Txt t) \<longleftrightarrow> (\<exists>t. kb ! i = Txt t)))
         \<and> (\<exists>r. key_lt ka kb = Inr r)"
proof -
  have sa: "key_shape ka" and sb: "key_shape kb"
    using assms by (auto dest: natural_sort_key_shape)
  have "(\<exists>t. ka ! i = Txt t) \<longleftrightarrow> (\<exists>t. kb ! i = Txt t)" if "i < length ka" "i < length kb" for i
    using key_shape_nth [OF sa that(1)] key_shape_nth [OF sb that(2)] by (cases "even i") auto
  then show ?thesis using key_lt_shape [OF sa sb] by blast
qed

theorem natural_sort_key_same_kinds_witness:
  "natural_sort_key ''A1'' = Inr [Txt ''a'', Num 1, Txt '''']
   \<and> natural_sort_key ''1A'' = Inr [Txt '''', Num 1, Txt ''a'']
   \<and> key_lt [Txt ''a'', Num 1, Txt ''''] [Txt '''', Num 1, Txt ''a''] = Inr False"
proof -
  have h1: "natural_sort_key ''A1'' = Inr [Txt ''a'', Num 1, Txt '''']" by code_simp
  have h2: "natural_sort_key ''1A'' = Inr [Txt '''', Num 1, Txt ''a'']" by code_simp
  show ?thesis using natural_sort_key_same_kinds [OF h1 h2] h1 h2 by auto
qed

text \<open>
  C9, as stated, fails: no pair of names has keys with a text token and an integer token
  at the same position.
\<close>

theorem text_against_integer_counterexample:
  "\<not> (\<exists>a b ka kb i t n. natural_sort_key a = Inr ka \<and> natural_sort_key b = Inr kb
        \<and> i < length ka \<and> i < length kb \<and> ka ! i = Txt t \<and> kb ! i = Num n)"
proof
  assume "\<exists>a b ka kb i t n. natural_sort_key a = Inr ka \<and> natural_sort_key b = Inr kb
        \<and> i < length ka \<and> i < length kb \<and> ka ! i = Txt t \<and> kb ! i = Num n"
  then obtain a b ka kb i t n where
    ka: "natural_sort_key a = Inr ka" and kb: "natural_sort_key b = Inr kb"
    and i: "i < length ka" "i < length kb" and at: "ka ! i = Txt t" "kb ! i = Num n"
    by blast
  from key_shape_nth [OF natural_sort_key_shape [OF ka] i(1)] at(1) have "even i"
    by (cases "even i") auto
  with key_shape_nth [OF natural_sort_key_shape [OF kb] i(2)] at(2) show False
    by auto
qed

section \<open>Properties of \<open>os.rename\<close> and \<open>rename_two_phase\<close>\<close>

lemma listdir_rename_keys [simp]: "listdir (rename_keys g d) = map g (listdir d)"
  by (simp add: listdir_def rename_keys_def case_prod_unfold)

lemma length_rename_keys [simp]: "length (rename_keys g d) = length d"
  by (simp add: rename_keys_def)

lemma values_rename_keys [simp]: "map snd (rename_keys g d) = map snd d"
  by (simp add: rename_keys_def case_prod_unfold)

lemma rename_keys_comp: "rename_keys g (rename_keys h d) = rename_keys (g \<circ> h) d"
  by (simp add: rename_keys_def case_prod_unfold)

lemma rename_keys_cong:
  "(\<And>k. k \<in> set (listdir d) \<Longrightarrow> g k = h k) \<Longrightarrow> rename_keys g d = rename_keys h d"
  by (fastforce simp: rename_keys_def listdir_def)

lemma rename_keys_id: "(\<And>k. k \<in> set (listdir d) \<Longrightarrow> g k = k) \<Longrightarrow> rename_keys g d = d"
  by (induction d) (auto simp: rename_keys_def listdir_def)

lemma move_entry_rename_keys: "move_entry s t d = rename_keys (\<lambda>k. if k = s then t else k) d"
  by (auto simp: move_entry_def rename_keys_def)

lemma move_entry_same [simp]: "move_entry s s d = d"
  by (simp add: move_entry_rename_keys rename_keys_id)

lemma map_of_rename_keys:
  assumes "inj_on g (insert k (set (listdir d)))"
  shows "map_of (rename_keys g d) (g k) = map_of d k"
  using assms
proof (induction d)
  case Nil
  show ?case by (simp add: rename_keys_def)
next
  case (Cons a d)
  obtain x v where a: "a = (x, v)" by (cases a)
  from Cons.prems have inj: "inj_on g (insert k (set (listdir d)))"
    by (auto simp: listdir_def inj_on_def)
  have "g k = g x \<longleftrightarrow> k = x" using Cons.prems a by (auto simp: listdir_def inj_on_def)
  then show ?case using Cons.IH [OF inj] a by (simp add: rename_keys_def)
qed

lemma map_of_rename_keys_None:
  "y \<notin> g ` set (listdir d) \<Longrightarrow> map_of (rename_keys g d) y = None"
  by (simp add: map_of_eq_None_iff listdir_def rename_keys_def image_image case_prod_unfold)

lemma in_listdir_iff: "x \<in> set (listdir d) \<longleftrightarrow> map_of d x \<noteq> None"
  by (simp add: listdir_def map_of_eq_None_iff)

lemma os_rename_quiet:
  assumes "src \<in> set (listdir d)" and "plain_name src" and "plain_name dst"
    and "src = dst \<or> dst \<notin> set (listdir d)"
  shows "os_rename src dst d = Inr (move_entry src dst d)"
proof -
  obtain n where n: "map_of d src = Some n" using assms(1) by (auto simp: in_listdir_iff)
  show ?thesis
  proof (cases "src = dst")
    case True
    then show ?thesis using n assms by (simp add: os_rename_def)
  next
    case False
    then have "map_of d dst = None" using assms(4) by (simp add: in_listdir_iff)
    then show ?thesis using n assms False by (simp add: os_rename_def)
  qed
qed

lemma wf_dir_listdir: "wf_dir d \<longleftrightarrow> distinct (listdir d) \<and> (\<forall>n \<in> set (listdir d). plain_name n)"
  by (simp add: wf_dir_def listdir_def)

lemma wf_move_entry:
  assumes "wf_dir d" and "plain_name dst" and "src = dst \<or> dst \<notin> set (listdir d)"
  shows "wf_dir (move_entry src dst d)"
proof (cases "src = dst")
  case True
  then show ?thesis using assms by simp
next
  case False
  then have fresh: "dst \<notin> set (listdir d)" using assms(3) by simp
  have "inj_on (\<lambda>k. if k = src then dst else k) (set (listdir d))"
    using fresh by (auto simp: inj_on_def)
  then have "distinct (map (\<lambda>k. if k = src then dst else k) (listdir d))"
    using assms(1) by (simp add: distinct_map wf_dir_listdir)
  moreover have "\<forall>n \<in> set (map (\<lambda>k. if k = src then dst else k) (listdir d)). plain_name n"
    using assms(1,2) by (auto simp: wf_dir_listdir)
  ultimately show ?thesis
    by (simp only: wf_dir_listdir move_entry_rename_keys listdir_rename_keys)
qed

lemma run_renames_append:
  "run_renames (xs @ ys) d =
     (case run_renames xs d of Inl ed \<Rightarrow> Inl ed | Inr d' \<Rightarrow> run_renames ys d')"
  by (induction xs arbitrary: d) (auto split: sum.splits)

lemma quiet_append: "quiet (xs @ ys) d \<longleftrightarrow> quiet xs d \<and> quiet ys (apply_moves xs d)"
  by (induction xs arbitrary: d) auto

lemma apply_moves_append: "apply_moves (xs @ ys) d = apply_moves ys (apply_moves xs d)"
  by (induction xs arbitrary: d) auto

lemma length_apply_moves [simp]: "length (apply_moves rs d) = length d"
  by (induction rs arbitrary: d) (auto simp: move_entry_rename_keys)

lemma values_apply_moves [simp]: "map snd (apply_moves rs d) = map snd d"
  by (induction rs arbitrary: d) (auto simp: move_entry_rename_keys)

lemma quiet_run:
  "wf_dir d \<Longrightarrow> quiet rs d \<Longrightarrow> run_renames rs d = Inr (apply_moves rs d) \<and> wf_dir (apply_moves rs d)"
proof (induction rs arbitrary: d)
  case Nil
  then show ?case by simp
next
  case (Cons r rs)
  obtain s t where r: "r = (s, t)" by (cases r)
  from Cons.prems r have q: "s \<in> set (listdir d)" "plain_name s" "plain_name t"
    "s = t \<or> t \<notin> set (listdir d)" "quiet rs (move_entry s t d)"
    by simp_all
  have "os_rename s t d = Inr (move_entry s t d)" by (rule os_rename_quiet [OF q(1-4)])
  moreover have "wf_dir (move_entry s t d)" by (rule wf_move_entry [OF Cons.prems(1) q(3,4)])
  ultimately show ?case using Cons.IH [OF _ q(5)] r by simp
qed

lemma quiet_collision_free:
  "wf_dir d \<Longrightarrow> quiet rs d \<Longrightarrow> \<forall>(s, t) \<in> set rs. s \<noteq> t \<Longrightarrow> collision_free rs d"
proof (induction rs arbitrary: d)
  case Nil
  then show ?case by simp
next
  case (Cons r rs)
  obtain s t where r: "r = (s, t)" by (cases r)
  from Cons.prems r have q: "s \<in> set (listdir d)" "plain_name s" "plain_name t"
    "s = t \<or> t \<notin> set (listdir d)" "quiet rs (move_entry s t d)" and ne: "s \<noteq> t"
    by simp_all
  have ren: "os_rename s t d = Inr (move_entry s t d)" by (rule os_rename_quiet [OF q(1-4)])
  have wf: "wf_dir (move_entry s t d)" by (rule wf_move_entry [OF Cons.prems(1) q(3,4)])
  have "collision_free rs (move_entry s t d)"
    using Cons.IH [OF wf q(5)] Cons.prems(3) by simp
  then show ?case using ren q(4) ne r by (simp add: move_entry_rename_keys)
qed

lemma upt_add_Suc: "[i..<i + Suc n] = i # [Suc i..<Suc i + n]"
  by (simp add: upt_conv_Cons)

lemma phase1_run:
  "phase1 f i items ts ms d =
     (case run_renames (zip items (map (\<lambda>j. TEMP_PREFIX @ f j) [i..<i + length items])) d of
        Inl ed \<Rightarrow> Inl ed
      | Inr d' \<Rightarrow> Inr (ts @ map (\<lambda>j. TEMP_PREFIX @ f j) [i..<i + length items],
                      ms @ zip items (map f [i..<i + length items]), d'))"
proof (induction items arbitrary: i ts ms d)
  case Nil
  show ?case by simp
next
  case (Cons x xs)
  have up: "[i..<i + length (x # xs)] = i # [Suc i..<Suc i + length xs]"
    using upt_add_Suc [of i "length xs"] by simp
  show ?case
    unfolding up by (simp add: Cons.IH Let_def split: sum.splits)
qed

lemma phase2_run:
  "length ts = length ms \<Longrightarrow> phase2 (zip ts ms) d = run_renames (zip ts (map snd ms)) d"
proof (induction ts ms arbitrary: d rule: list_induct2)
  case Nil
  show ?case by simp
next
  case (Cons t ts m ms)
  obtain old final where m: "m = (old, final)" by (cases m)
  show ?case using Cons.IH by (simp add: m split: sum.splits)
qed

lemma rename_two_phase_run:
  "rename_two_phase items f d =
     (case run_renames (renames items f) d of
        Inl ed \<Rightarrow> Inl ed
      | Inr d' \<Rightarrow> Inr (zip items (map f [0..<length items]), d'))"
proof -
  let ?temps = "map (\<lambda>j. TEMP_PREFIX @ f j) [0..<length items]"
  let ?finals = "map f [0..<length items]"
  have p2: "phase2 (zip ?temps (zip items ?finals)) d1 = run_renames (zip ?temps ?finals) d1" for d1
    using phase2_run [of ?temps "zip items ?finals" d1] by (simp add: map_snd_zip)
  show ?thesis
    using phase1_run [of f 0 items "[]" "[]" d]
    by (simp add: rename_two_phase_def renames_def run_renames_append p2 split: sum.splits)
qed

lemma rename_two_phase_mapping:
  "rename_two_phase items f d = Inr (mapping, d') \<Longrightarrow> mapping = zip items (map f [0..<length items])"
  by (auto simp: rename_two_phase_run split: sum.splits)

lemma names_move_entry:
  "src \<in> set (listdir d) \<Longrightarrow>
     set (listdir (move_entry src dst d)) = insert dst (set (listdir d) - {src})"
  by (auto simp: move_entry_rename_keys)

lemma quiet_fresh:
  assumes "length srcs = length dsts" and "distinct srcs" and "distinct dsts"
    and "set srcs \<subseteq> set (listdir d)" and "set dsts \<inter> set (listdir d) = {}"
    and "\<forall>x \<in> set srcs \<union> set dsts. plain_name x"
  shows "quiet (zip srcs dsts) d"
  using assms
proof (induction srcs dsts arbitrary: d rule: list_induct2)
  case Nil
  show ?case by simp
next
  case (Cons s srcs t dsts)
  have s: "s \<in> set (listdir d)" and t: "t \<notin> set (listdir d)"
    using Cons.prems by auto
  have names: "set (listdir (move_entry s t d)) = insert t (set (listdir d) - {s})"
    by (rule names_move_entry [OF s])
  have "quiet (zip srcs dsts) (move_entry s t d)"
  proof (rule Cons.IH)
    show "distinct srcs" "distinct dsts" using Cons.prems by simp_all
    show "set srcs \<subseteq> set (listdir (move_entry s t d))"
      using Cons.prems(1,3) unfolding names by auto
    show "set dsts \<inter> set (listdir (move_entry s t d)) = {}"
      using Cons.prems(2,4) unfolding names by auto
    show "\<forall>x \<in> set srcs \<union> set dsts. plain_name x" using Cons.prems(5) by simp
  qed
  then show ?case using s t Cons.prems(5) by simp
qed

lemma rename_map_Cons: "rename_map ((s, t) # al) k = (if k = s then t else rename_map al k)"
  by (simp add: rename_map_def)

lemma rename_map_notin:
  "length xs = length ys \<Longrightarrow> k \<notin> set xs \<Longrightarrow> rename_map (zip xs ys) k = k"
  by (simp add: rename_map_def map_of_zip_is_None [THEN iffD2])

lemma rename_map_nth:
  "length xs = length ys \<Longrightarrow> distinct xs \<Longrightarrow> i < length xs \<Longrightarrow>
     rename_map (zip xs ys) (xs ! i) = ys ! i"
  by (simp add: rename_map_def map_of_zip_nth)

lemma apply_moves_closed:
  assumes "length srcs = length dsts" and "distinct srcs" and "set srcs \<subseteq> set (listdir d)"
    and "quiet (zip srcs dsts) d"
  shows "apply_moves (zip srcs dsts) d = rename_keys (rename_map (zip srcs dsts)) d"
  using assms
proof (induction srcs dsts arbitrary: d rule: list_induct2)
  case Nil
  show ?case by (simp add: rename_keys_id rename_map_def)
next
  case (Cons s srcs t dsts)
  let ?d = "move_entry s t d"
  have s: "s \<in> set (listdir d)" and st: "s = t \<or> t \<notin> set (listdir d)"
    and q: "quiet (zip srcs dsts) ?d"
    using Cons.prems by simp_all
  have names: "set (listdir ?d) = insert t (set (listdir d) - {s})"
    by (rule names_move_entry [OF s])
  have sub: "set srcs \<subseteq> set (listdir ?d)" using Cons.prems(1,2) unfolding names by auto
  have t: "t \<notin> set srcs" using st Cons.prems(1,2) by auto
  have "apply_moves (zip srcs dsts) ?d = rename_keys (rename_map (zip srcs dsts)) ?d"
    using Cons.IH [OF _ sub q] Cons.prems(1) by simp
  also have "\<dots> = rename_keys (rename_map (zip srcs dsts) \<circ> (\<lambda>k. if k = s then t else k)) d"
    by (simp add: move_entry_rename_keys rename_keys_comp)
  also have "\<dots> = rename_keys (rename_map (zip (s # srcs) (t # dsts))) d"
  proof (rule rename_keys_cong)
    fix k
    show "(rename_map (zip srcs dsts) \<circ> (\<lambda>k. if k = s then t else k)) k
          = rename_map (zip (s # srcs) (t # dsts)) k"
      using rename_map_notin [OF Cons.hyps t] by (simp add: rename_map_Cons)
  qed
  finally show ?case by simp
qed

lemma reserved_temp: "reserved (TEMP_PREFIX @ x)"
  by (simp add: reserved_def)

lemma plain_temp: "plain_name x \<Longrightarrow> plain_name (TEMP_PREFIX @ x)"
  by (auto simp: plain_name_def TEMP_PREFIX_def)

lemma temp_inject: "TEMP_PREFIX @ x = TEMP_PREFIX @ y \<longleftrightarrow> x = y"
  by simp

lemma two_phase_closed:
  assumes "distinct items" and "inj_on f {..<length items}"
    and "set items \<subseteq> set (listdir d)"
    and "quiet (renames items f) d"
    and "\<forall>k \<in> set (listdir d) - set items. \<forall>i < length items. k \<noteq> TEMP_PREFIX @ f i"
  shows "apply_moves (renames items f) d
         = rename_keys (rename_map (zip items (map f [0..<length items]))) d"
proof -
  let ?n = "length items"
  let ?temps = "map (\<lambda>i. TEMP_PREFIX @ f i) [0..<?n]"
  let ?finals = "map f [0..<?n]"
  let ?d1 = "apply_moves (zip items ?temps) d"
  have inj: "inj_on (\<lambda>i. TEMP_PREFIX @ f i) {..<?n}"
    using assms(2) by (simp add: inj_on_def)
  have dt: "distinct ?temps"
    using inj by (simp add: distinct_map atLeast0LessThan)
  from assms(4) have q1: "quiet (zip items ?temps) d" and q2: "quiet (zip ?temps ?finals) ?d1"
    by (simp_all add: renames_def quiet_append)
  have d1: "?d1 = rename_keys (rename_map (zip items ?temps)) d"
    by (rule apply_moves_closed [OF _ assms(1,3) q1]) simp
  have "set ?temps \<subseteq> set (listdir ?d1)"
  proof
    fix t assume "t \<in> set ?temps"
    then obtain i where i: "i < ?n" and t: "t = TEMP_PREFIX @ f i" by auto
    have "rename_map (zip items ?temps) (items ! i) = ?temps ! i"
      by (rule rename_map_nth [OF _ assms(1) i]) simp
    then have "t = rename_map (zip items ?temps) (items ! i)" using i t by simp
    moreover have "items ! i \<in> set (listdir d)" using assms(3) i by auto
    ultimately show "t \<in> set (listdir ?d1)" unfolding d1 by simp
  qed
  then have "apply_moves (zip ?temps ?finals) ?d1 = rename_keys (rename_map (zip ?temps ?finals)) ?d1"
    using apply_moves_closed [OF _ dt _ q2] by simp
  also have "\<dots> = rename_keys (rename_map (zip ?temps ?finals) \<circ> rename_map (zip items ?temps)) d"
    unfolding d1 by (rule rename_keys_comp)
  also have "\<dots> = rename_keys (rename_map (zip items ?finals)) d"
  proof (rule rename_keys_cong)
    fix k assume k: "k \<in> set (listdir d)"
    show "(rename_map (zip ?temps ?finals) \<circ> rename_map (zip items ?temps)) k
          = rename_map (zip items ?finals) k"
    proof (cases "k \<in> set items")
      case True
      then obtain i where i: "i < ?n" and ki: "k = items ! i" by (auto simp: in_set_conv_nth)
      have a: "rename_map (zip items ?temps) k = ?temps ! i"
        unfolding ki by (rule rename_map_nth [OF _ assms(1) i]) simp
      have b: "rename_map (zip ?temps ?finals) (?temps ! i) = ?finals ! i"
        by (rule rename_map_nth [OF _ dt]) (simp_all add: i)
      have c: "rename_map (zip items ?finals) k = ?finals ! i"
        unfolding ki by (rule rename_map_nth [OF _ assms(1) i]) simp
      show ?thesis using a b c by simp
    next
      case False
      have "k \<notin> set ?temps"
      proof
        assume "k \<in> set ?temps"
        then obtain i where "i < ?n" "k = TEMP_PREFIX @ f i" by auto
        moreover have "k \<in> set (listdir d) - set items" using k False by simp
        ultimately show False using assms(5) by blast
      qed
      then have "rename_map (zip ?temps ?finals) k = k"
        using rename_map_notin [of ?temps ?finals k] by simp
      moreover have "rename_map (zip items ?temps) k = k"
        using rename_map_notin [of items ?temps k] False by simp
      moreover have "rename_map (zip items ?finals) k = k"
        using rename_map_notin [of items ?finals k] False by simp
      ultimately show ?thesis by simp
    qed
  qed
  finally show ?thesis by (simp add: renames_def apply_moves_append)
qed

lemma clean_quiet:
  assumes "wf_dir d" and "distinct items" and "set items \<subseteq> set (listdir d)"
    and "\<forall>x \<in> set (listdir d). \<not> reserved x"
    and "inj_on f {..<length items}"
    and "\<forall>i < length items. plain_name (f i) \<and> \<not> reserved (f i)
           \<and> (f i \<in> set (listdir d) \<longrightarrow> f i \<in> set items)"
  shows "quiet (renames items f) d"
proof -
  let ?n = "length items"
  let ?temps = "map (\<lambda>i. TEMP_PREFIX @ f i) [0..<?n]"
  let ?finals = "map f [0..<?n]"
  let ?d1 = "apply_moves (zip items ?temps) d"
  have inj: "inj_on (\<lambda>i. TEMP_PREFIX @ f i) {..<?n}"
    using assms(5) by (simp add: inj_on_def)
  have dt: "distinct ?temps" using inj by (simp add: distinct_map atLeast0LessThan)
  have df: "distinct ?finals" using assms(5) by (simp add: distinct_map atLeast0LessThan)
  have plain_items: "\<forall>x \<in> set items. plain_name x"
    using assms(1,3) by (auto simp: wf_dir_listdir)
  have q1: "quiet (zip items ?temps) d"
  proof (rule quiet_fresh)
    show "set ?temps \<inter> set (listdir d) = {}"
      using assms(4) reserved_temp by auto
    show "\<forall>x \<in> set items \<union> set ?temps. plain_name x"
      using plain_items assms(6) by (auto intro: plain_temp)
  qed (simp_all add: assms dt)
  have d1: "?d1 = rename_keys (rename_map (zip items ?temps)) d"
    by (rule apply_moves_closed [OF _ assms(2,3) q1]) simp
  have names1: "set (listdir ?d1) = rename_map (zip items ?temps) ` set (listdir d)"
    unfolding d1 by simp
  have q2: "quiet (zip ?temps ?finals) ?d1"
  proof (rule quiet_fresh)
    show "set ?temps \<subseteq> set (listdir ?d1)"
    proof
      fix t assume "t \<in> set ?temps"
      then obtain i where i: "i < ?n" and t: "t = TEMP_PREFIX @ f i" by auto
      have "rename_map (zip items ?temps) (items ! i) = ?temps ! i"
        by (rule rename_map_nth [OF _ assms(2) i]) simp
      then have "t = rename_map (zip items ?temps) (items ! i)" using i t by simp
      moreover have "items ! i \<in> set (listdir d)" using assms(3) i by auto
      ultimately show "t \<in> set (listdir ?d1)" unfolding names1 by blast
    qed
    show "set ?finals \<inter> set (listdir ?d1) = {}"
    proof (rule ccontr)
      assume "set ?finals \<inter> set (listdir ?d1) \<noteq> {}"
      then obtain i k where i: "i < ?n" and k: "k \<in> set (listdir d)"
        and eq: "f i = rename_map (zip items ?temps) k"
        unfolding names1 by auto
      show False
      proof (cases "k \<in> set items")
        case True
        then obtain j where j: "j < ?n" and kj: "k = items ! j" by (auto simp: in_set_conv_nth)
        have "rename_map (zip items ?temps) k = ?temps ! j"
          unfolding kj by (rule rename_map_nth [OF _ assms(2) j]) simp
        then have "f i = TEMP_PREFIX @ f j" using eq j by simp
        then show False using assms(6) i reserved_temp [of "f j"] by auto
      next
        case False
        then have "rename_map (zip items ?temps) k = k"
          using rename_map_notin [of items ?temps k] by simp
        then show False using eq k False assms(6) i by auto
      qed
    qed
    show "\<forall>x \<in> set ?temps \<union> set ?finals. plain_name x"
      using assms(6) by (auto intro: plain_temp)
  qed (simp_all add: dt df)
  show ?thesis using q1 q2 by (simp add: renames_def quiet_append)
qed

lemma renames_not_same:
  assumes "\<forall>x \<in> set items. \<not> reserved x" and "\<forall>i < length items. \<not> reserved (f i)"
  shows "\<forall>(s, t) \<in> set (renames items f). s \<noteq> t"
proof -
  have "s \<noteq> t" if "(s, t) \<in> set (renames items f)" for s t
  proof -
    from that consider
      (one) "(s, t) \<in> set (zip items (map (\<lambda>i. TEMP_PREFIX @ f i) [0..<length items]))"
      | (two) "(s, t) \<in> set (zip (map (\<lambda>i. TEMP_PREFIX @ f i) [0..<length items]) (map f [0..<length items]))"
      by (auto simp: renames_def)
    then show ?thesis
    proof cases
      case one
      have "s \<in> set items" using set_zip_leftD [OF one] .
      moreover have "reserved t" using set_zip_rightD [OF one] by (auto simp: reserved_temp)
      ultimately show ?thesis using assms(1) by auto
    next
      case two
      have "reserved s" using set_zip_leftD [OF two] by (auto simp: reserved_temp)
      moreover obtain i where "i < length items" "t = f i"
        using set_zip_rightD [OF two] by auto
      ultimately show ?thesis using assms(2) by auto
    qed
  qed
  then show ?thesis by auto
qed

lemma rename_keys_inj:
  assumes "wf_dir (rename_keys g d)"
  shows "inj_on g (set (listdir d))"
  using assms by (simp add: wf_dir_listdir distinct_map)

lemma rename_keys_lookup:
  assumes "wf_dir (rename_keys g d)" and "k \<in> set (listdir d)"
  shows "map_of (rename_keys g d) (g k) = map_of d k"
proof -
  have "insert k (set (listdir d)) = set (listdir d)" using assms(2) by auto
  then show ?thesis
    using map_of_rename_keys [of g k d] rename_keys_inj [OF assms(1)] by simp
qed

lemma clean_result:
  assumes "wf_dir d" and "distinct items" and "set items \<subseteq> set (listdir d)"
    and "\<forall>x \<in> set (listdir d). \<not> reserved x"
    and "inj_on f {..<length items}"
    and "\<forall>i < length items. plain_name (f i) \<and> \<not> reserved (f i)
           \<and> (f i \<in> set (listdir d) \<longrightarrow> f i \<in> set items)"
  shows "run_renames (renames items f) d
           = Inr (rename_keys (rename_map (zip items (map f [0..<length items]))) d)"
    and "wf_dir (rename_keys (rename_map (zip items (map f [0..<length items]))) d)"
proof -
  have q: "quiet (renames items f) d" by (rule clean_quiet [OF assms])
  have "\<forall>k \<in> set (listdir d) - set items. \<forall>i < length items. k \<noteq> TEMP_PREFIX @ f i"
    using assms(4) reserved_temp by auto
  then have "apply_moves (renames items f) d
      = rename_keys (rename_map (zip items (map f [0..<length items]))) d"
    by (rule two_phase_closed [OF assms(2,5,3) q])
  then show "run_renames (renames items f) d
           = Inr (rename_keys (rename_map (zip items (map f [0..<length items]))) d)"
    and "wf_dir (rename_keys (rename_map (zip items (map f [0..<length items]))) d)"
    using quiet_run [OF assms(1) q] by simp_all
qed

lemma renamed_lookup_final:
  assumes "wf_dir (rename_keys (rename_map (zip items (map f [0..<length items]))) d)"
    and "distinct items" and "set items \<subseteq> set (listdir d)" and "i < length items"
  shows "map_of (rename_keys (rename_map (zip items (map f [0..<length items]))) d) (f i)
         = map_of d (items ! i)"
proof -
  have "rename_map (zip items (map f [0..<length items])) (items ! i) = map f [0..<length items] ! i"
    by (rule rename_map_nth [OF _ assms(2,4)]) simp
  then have "rename_map (zip items (map f [0..<length items])) (items ! i) = f i"
    using assms(4) by simp
  moreover have "items ! i \<in> set (listdir d)" using assms(3,4) by auto
  ultimately show ?thesis using rename_keys_lookup [OF assms(1)] by metis
qed

lemma renamed_lookup_other:
  assumes "wf_dir (rename_keys (rename_map (zip items (map f [0..<length items]))) d)"
    and "x \<notin> f ` {..<length items}"
  shows "map_of (rename_keys (rename_map (zip items (map f [0..<length items]))) d) x
         = (if x \<in> set items then None else map_of d x)"
proof -
  let ?g = "rename_map (zip items (map f [0..<length items]))"
  have final: "?g k \<in> f ` {..<length items}" if "k \<in> set items" for k
  proof -
    from that have "map_of (zip items (map f [0..<length items])) k \<noteq> None"
      by (simp add: map_of_zip_is_None)
    then obtain y where y: "map_of (zip items (map f [0..<length items])) k = Some y"
      unfolding not_None_eq by blast
    then have "y \<in> set (map f [0..<length items])"
      by (auto dest!: map_of_SomeD set_zip_rightD)
    then show ?thesis using y by (auto simp: rename_map_def)
  qed
  have same: "?g k = k" if "k \<notin> set items" for k
    using rename_map_notin [of items "map f [0..<length items]" k] that by simp
  show ?thesis
  proof (cases "x \<in> set (listdir d) \<and> x \<notin> set items")
    case True
    then show ?thesis using rename_keys_lookup [OF assms(1), of x] same [of x] by simp
  next
    case False
    have "x \<notin> ?g ` set (listdir d)"
    proof
      assume "x \<in> ?g ` set (listdir d)"
      then obtain k where k: "k \<in> set (listdir d)" and x: "x = ?g k" by auto
      show False
      proof (cases "k \<in> set items")
        case True
        then show False using final [OF True] x assms(2) by simp
      next
        case nk: False
        then show False using same [OF nk] x k False final assms(2) by auto
      qed
    qed
    then have "map_of (rename_keys ?g d) x = None" by (rule map_of_rename_keys_None)
    moreover have "x \<notin> set items \<Longrightarrow> map_of d x = None"
      using False by (simp add: in_listdir_iff)
    ultimately show ?thesis by simp
  qed
qed

lemma quiet_take: "quiet rs d \<Longrightarrow> quiet (take k rs) d"
  using quiet_append [of "take k rs" "drop k rs" d] by simp

lemma quiet_nth_fresh:
  assumes "quiet rs d" and "k < length rs" and "fst (rs ! k) \<noteq> snd (rs ! k)"
  shows "snd (rs ! k) \<notin> set (listdir (apply_moves (take k rs) d))"
proof -
  have "rs = take k rs @ rs ! k # drop (Suc k) rs" using assms(2) by (simp add: id_take_nth_drop)
  then have "quiet (take k rs @ rs ! k # drop (Suc k) rs) d" using assms(1) by simp
  then have "quiet (rs ! k # drop (Suc k) rs) (apply_moves (take k rs) d)"
    by (simp add: quiet_append)
  then show ?thesis using assms(3) by (cases "rs ! k") auto
qed

text \<open>
  C7. When \<open>rename_two_phase\<close> returns, it returns one pair for each item, in the order
  of the input: the pair at position \<open>i\<close> is \<open>(items[i], make_final_name(i))\<close>. It
  does return, with that list, on a directory with distinct plain names that holds the
  items, where no name is reserved, for a generator that is injective on the positions
  and gives plain names that are not reserved and belong to no entry outside the list.
\<close>

theorem rename_two_phase_mapping_in_order:
  "(\<forall>mapping d'. rename_two_phase items f d = Inr (mapping, d') \<longrightarrow>
      length mapping = length items \<and> (\<forall>i < length items. mapping ! i = (items ! i, f i)))
   \<and> (wf_dir d \<and> distinct items \<and> set items \<subseteq> set (listdir d)
        \<and> (\<forall>x \<in> set (listdir d). \<not> reserved x)
        \<and> inj_on f {..<length items}
        \<and> (\<forall>i < length items. plain_name (f i) \<and> \<not> reserved (f i)
              \<and> (f i \<in> set (listdir d) \<longrightarrow> f i \<in> set items))
      \<longrightarrow> (\<exists>d'. rename_two_phase items f d = Inr (zip items (map f [0..<length items]), d')))"
proof (rule conjI)
  show "\<forall>mapping d'. rename_two_phase items f d = Inr (mapping, d') \<longrightarrow>
      length mapping = length items \<and> (\<forall>i < length items. mapping ! i = (items ! i, f i))"
  proof (intro allI impI)
    fix mapping d'
    assume "rename_two_phase items f d = Inr (mapping, d')"
    then have m: "mapping = zip items (map f [0..<length items])"
      by (rule rename_two_phase_mapping)
    show "length mapping = length items \<and> (\<forall>i < length items. mapping ! i = (items ! i, f i))"
      by (simp add: m)
  qed
next
  show "wf_dir d \<and> distinct items \<and> set items \<subseteq> set (listdir d)
        \<and> (\<forall>x \<in> set (listdir d). \<not> reserved x)
        \<and> inj_on f {..<length items}
        \<and> (\<forall>i < length items. plain_name (f i) \<and> \<not> reserved (f i)
              \<and> (f i \<in> set (listdir d) \<longrightarrow> f i \<in> set items))
      \<longrightarrow> (\<exists>d'. rename_two_phase items f d = Inr (zip items (map f [0..<length items]), d'))"
  proof
    assume h: "wf_dir d \<and> distinct items \<and> set items \<subseteq> set (listdir d)
        \<and> (\<forall>x \<in> set (listdir d). \<not> reserved x)
        \<and> inj_on f {..<length items}
        \<and> (\<forall>i < length items. plain_name (f i) \<and> \<not> reserved (f i)
              \<and> (f i \<in> set (listdir d) \<longrightarrow> f i \<in> set items))"
    have "run_renames (renames items f) d
           = Inr (rename_keys (rename_map (zip items (map f [0..<length items]))) d)"
      by (rule clean_result(1)) (use h in blast)+
    then show "\<exists>d'. rename_two_phase items f d = Inr (zip items (map f [0..<length items]), d')"
      by (simp add: rename_two_phase_run)
  qed
qed


theorem rename_two_phase_mapping_in_order_witness:
  "rename_two_phase [''b'', ''a''] folder_final_name [(''a'', Dir []), (''b'', Dir [])]
     = Inr ([(''b'', ''01''), (''a'', ''02'')], [(''02'', Dir []), (''01'', Dir [])])
   \<and> length [(''b'', ''01''), (''a'', ''02'')] = length [''b'', ''a'']
   \<and> [(''b'', ''01''), (''a'', ''02'')] ! 0 = ([''b'', ''a''] ! 0, folder_final_name 0)
   \<and> [(''b'', ''01''), (''a'', ''02'')] ! 1 = ([''b'', ''a''] ! 1, folder_final_name 1)
   \<and> (\<exists>d'. rename_two_phase [''b'', ''a''] folder_final_name [(''a'', Dir []), (''b'', Dir [])]
         = Inr (zip [''b'', ''a''] (map folder_final_name [0..<length [''b'', ''a'']]), d'))"
proof -
  let ?items = "[''b'', ''a'']" and ?d = "[(''a'', Dir []), (''b'', Dir [])]"
  have run: "rename_two_phase ?items folder_final_name ?d
     = Inr ([(''b'', ''01''), (''a'', ''02'')], [(''02'', Dir []), (''01'', Dir [])])"
    by code_simp
  have f0: "folder_final_name 0 = ''01''" and f1: "folder_final_name 1 = ''02''"
    by code_simp+
  have two: "i < length ?items \<longleftrightarrow> i = 0 \<or> i = 1" for i by auto
  have h1: "wf_dir ?d" by code_simp
  have h2: "distinct ?items" by simp
  have h3: "set ?items \<subseteq> set (listdir ?d)" by code_simp
  have h4: "\<forall>x \<in> set (listdir ?d). \<not> reserved x" by code_simp
  have "{..<length ?items} = {0, 1}" by auto
  then have h5: "inj_on folder_final_name {..<length ?items}"
    using f0 f1 by (simp add: inj_on_def)
  have p: "plain_name ''01''" "plain_name ''02''" "\<not> reserved ''01''" "\<not> reserved ''02''"
    "''01'' \<notin> set (listdir ?d)" "''02'' \<notin> set (listdir ?d)"
    by code_simp+
  have h6: "\<forall>i < length ?items. plain_name (folder_final_name i) \<and> \<not> reserved (folder_final_name i)
              \<and> (folder_final_name i \<in> set (listdir ?d) \<longrightarrow> folder_final_name i \<in> set ?items)"
    using p f0 f1 unfolding two by auto
  have n: "(0::nat) < length ?items" "(1::nat) < length ?items" by simp_all
  show ?thesis
    using rename_two_phase_mapping_in_order [of ?items folder_final_name ?d] run h1 h2 h3 h4 h5 h6 n
    by blast
qed

text \<open>
  C2, as amended. On a directory with distinct plain names none of which is reserved, for
  a list of distinct names of entries of it and a generator that is injective on the
  positions and gives plain names that are not reserved and belong to no entry outside
  the list, \<open>rename_two_phase\<close> returns and every entry of the list bears its final
  name: the final name of position \<open>i\<close> holds what \<open>items[i]\<close> held, every other name
  holds what it held unless it was an item, in which case it is gone, and the number of
  entries is the same. No call has a destination that is the name of an entry at the
  time of the call, and no temporary or final name of one position is the final name of
  another. Final names may be names of items, as when two files exchange their names.
\<close>

theorem rename_two_phase_reaches_final_names:
  assumes "wf_dir d" and "distinct items" and "set items \<subseteq> set (listdir d)"
    and "\<forall>x \<in> set (listdir d). \<not> reserved x"
    and "inj_on f {..<length items}"
    and "\<forall>i < length items. plain_name (f i) \<and> \<not> reserved (f i)
           \<and> (f i \<in> set (listdir d) \<longrightarrow> f i \<in> set items)"
  shows "\<exists>d'. rename_two_phase items f d = Inr (zip items (map f [0..<length items]), d')
     \<and> (\<forall>i < length items. map_of d' (f i) = map_of d (items ! i))
     \<and> (\<forall>x. x \<notin> f ` {..<length items} \<longrightarrow>
            map_of d' x = (if x \<in> set items then None else map_of d x))
     \<and> length d' = length d
     \<and> collision_free (renames items f) d
     \<and> (\<forall>i < length items. \<forall>j < length items.
            TEMP_PREFIX @ f i \<noteq> f j \<and> (i \<noteq> j \<longrightarrow> f i \<noteq> f j))"
proof -
  let ?d' = "rename_keys (rename_map (zip items (map f [0..<length items]))) d"
  have run: "run_renames (renames items f) d = Inr ?d'" and wf: "wf_dir ?d'"
    by (rule clean_result [OF assms])+
  have ret: "rename_two_phase items f d = Inr (zip items (map f [0..<length items]), ?d')"
    using run by (simp add: rename_two_phase_run)
  have fin: "\<forall>i < length items. map_of ?d' (f i) = map_of d (items ! i)"
    using renamed_lookup_final [OF wf assms(2,3)] by blast
  have oth: "\<forall>x. x \<notin> f ` {..<length items} \<longrightarrow>
            map_of ?d' x = (if x \<in> set items then None else map_of d x)"
    using renamed_lookup_other [OF wf] by blast
  have items_free: "\<forall>x \<in> set items. \<not> reserved x" using assms(3,4) by auto
  have finals_free: "\<forall>i < length items. \<not> reserved (f i)" using assms(6) by simp
  have cf: "collision_free (renames items f) d"
    by (rule quiet_collision_free [OF assms(1) clean_quiet [OF assms]
          renames_not_same [OF items_free finals_free]])
  have names: "\<forall>i < length items. \<forall>j < length items.
            TEMP_PREFIX @ f i \<noteq> f j \<and> (i \<noteq> j \<longrightarrow> f i \<noteq> f j)"
  proof (intro allI impI)
    fix i j assume i: "i < length items" and j: "j < length items"
    have "TEMP_PREFIX @ f i \<noteq> f j"
      using finals_free j reserved_temp [of "f i"] by metis
    moreover have "i \<noteq> j \<longrightarrow> f i \<noteq> f j"
      using assms(5) i j by (auto simp: inj_on_def)
    ultimately show "TEMP_PREFIX @ f i \<noteq> f j \<and> (i \<noteq> j \<longrightarrow> f i \<noteq> f j)" by simp
  qed
  have len: "length ?d' = length d" by simp
  show ?thesis using ret fin oth len cf names by blast
qed

theorem rename_two_phase_reaches_final_names_witness:
  "\<exists>d'. rename_two_phase [''002.mp3'', ''001.mp3''] file_final_name
           [(''001.mp3'', File 1), (''002.mp3'', File 2)]
         = Inr (zip [''002.mp3'', ''001.mp3''] (map file_final_name [0..<length [''002.mp3'', ''001.mp3'']]), d')
     \<and> map_of d' (file_final_name 0) = Some (File 2)
     \<and> map_of d' (file_final_name 1) = Some (File 1)
     \<and> length d' = length [(''001.mp3'', File 1), (''002.mp3'', File 2)]
     \<and> collision_free (renames [''002.mp3'', ''001.mp3''] file_final_name)
           [(''001.mp3'', File 1), (''002.mp3'', File 2)]"
proof -
  let ?items = "[''002.mp3'', ''001.mp3'']" and ?d = "[(''001.mp3'', File 1), (''002.mp3'', File 2)]"
  have f0: "file_final_name 0 = ''001.mp3''" and f1: "file_final_name 1 = ''002.mp3''"
    by code_simp+
  have two: "i < length ?items \<longleftrightarrow> i = 0 \<or> i = 1" for i by auto
  have h1: "wf_dir ?d" by code_simp
  have h2: "distinct ?items" by simp
  have h3: "set ?items \<subseteq> set (listdir ?d)" by code_simp
  have h4: "\<forall>x \<in> set (listdir ?d). \<not> reserved x" by code_simp
  have "{..<length ?items} = {0, 1}" by auto
  then have h5: "inj_on file_final_name {..<length ?items}"
    using f0 f1 by (simp add: inj_on_def)
  have p: "plain_name ''001.mp3''" "plain_name ''002.mp3''"
    "\<not> reserved ''001.mp3''" "\<not> reserved ''002.mp3''"
    by code_simp+
  have h6: "\<forall>i < length ?items. plain_name (file_final_name i) \<and> \<not> reserved (file_final_name i)
              \<and> (file_final_name i \<in> set (listdir ?d) \<longrightarrow> file_final_name i \<in> set ?items)"
    using p f0 f1 unfolding two by auto
  have n: "(0::nat) < length ?items" "(1::nat) < length ?items" by simp_all
  have m: "map_of ?d (?items ! 0) = Some (File 2)" "map_of ?d (?items ! 1) = Some (File 1)"
    by simp_all
  from rename_two_phase_reaches_final_names [OF h1 h2 h3 h4 h5 h6]
  obtain d' where d': "rename_two_phase ?items file_final_name ?d
         = Inr (zip ?items (map file_final_name [0..<length ?items]), d')"
    "\<forall>i < length ?items. map_of d' (file_final_name i) = map_of ?d (?items ! i)"
    "length d' = length ?d"
    "collision_free (renames ?items file_final_name) ?d"
    by blast
  have "map_of d' (file_final_name 0) = Some (File 2)" using d'(2) n(1) m(1) by metis
  moreover have "map_of d' (file_final_name 1) = Some (File 1)" using d'(2) n(2) m(2) by metis
  ultimately show ?thesis using d'(1,3,4) by blast
qed

text \<open>
  C2, as stated, fails in three ways. An item may bear a reserved name: with the items
  "x" and "__dftemp_A" and the final names "A" and "B", the first call renames "x" to
  "__dftemp_A", the name the other entry bears then; that file is replaced, and the
  function raises FileNotFoundError in its second loop, with one entry left. A final
  name may be reserved: with the items "p" and "q" and the final names "__dftemp_C" and
  "C", the function returns with one entry left, under the name "C". And a final name
  may belong to an entry outside the list: with the item "u" beside a file "V" and the
  final name "V", that file is replaced.
\<close>

theorem reserved_item_counterexample:
  "wf_dir [(''x'', File 1), (''__dftemp_A'', File 2)]
   \<and> distinct [''x'', ''__dftemp_A'']
   \<and> set [''x'', ''__dftemp_A''] = set (listdir [(''x'', File 1), (''__dftemp_A'', File 2)])
   \<and> inj (\<lambda>i. if i = 0 then ''A'' else replicate i (CHR ''B''))
   \<and> renames [''x'', ''__dftemp_A''] (\<lambda>i. if i = 0 then ''A'' else replicate i (CHR ''B'')) ! 0
       = (''x'', ''__dftemp_A'')
   \<and> rename_two_phase [''x'', ''__dftemp_A''] (\<lambda>i. if i = 0 then ''A'' else replicate i (CHR ''B''))
        [(''x'', File 1), (''__dftemp_A'', File 2)]
       = Inl (FileNotFoundError, [(''__dftemp_B'', File 1)])
   \<and> inj (\<lambda>i. if i = 0 then ''__dftemp_C'' else replicate i (CHR ''C''))
   \<and> rename_two_phase [''p'', ''q''] (\<lambda>i. if i = 0 then ''__dftemp_C'' else replicate i (CHR ''C''))
        [(''p'', File 1), (''q'', File 2)]
       = Inr ([(''p'', ''__dftemp_C''), (''q'', ''C'')], [(''C'', File 1)])
   \<and> inj (\<lambda>i. replicate (Suc i) (CHR ''V''))
   \<and> rename_two_phase [''u''] (\<lambda>i. replicate (Suc i) (CHR ''V''))
        [(''u'', File 1), (''V'', File 2)]
       = Inr ([(''u'', ''V'')], [(''V'', File 1)])"
proof -
  have inj_if: "inj (\<lambda>i. if i = 0 then a else replicate i c)" if "a \<noteq> [] \<and> hd a \<noteq> c"
    for a :: string and c
  proof (rule injI)
    fix i j :: nat
    assume eq: "(if i = 0 then a else replicate i c) = (if j = 0 then a else replicate j c)"
    show "i = j"
    proof (cases "i = 0")
      case True
      show ?thesis
      proof (rule ccontr)
        assume "i \<noteq> j"
        then have "a = replicate j c" and "j \<noteq> 0" using eq True by auto
        then have "hd a = c" by (cases j) auto
        then show False using that by simp
      qed
    next
      case False
      have "j \<noteq> 0"
      proof
        assume "j = 0"
        then have "replicate i c = a" using eq False by simp
        then have "hd a = c" using False by (cases i) auto
        then show False using that by simp
      qed
      then have "length (replicate i c) = length (replicate j c)" using eq False by simp
      then show ?thesis by simp
    qed
  qed
  have inj1: "inj (\<lambda>i. if i = 0 then ''A'' else replicate i (CHR ''B''))"
    by (rule inj_if) simp
  have inj2: "inj (\<lambda>i. if i = 0 then ''__dftemp_C'' else replicate i (CHR ''C''))"
    by (rule inj_if) simp
  have inj3: "inj (\<lambda>i. replicate (Suc i) (CHR ''V''))"
  proof (rule injI)
    fix i j :: nat
    assume "replicate (Suc i) (CHR ''V'') = replicate (Suc j) (CHR ''V'')"
    then have "length (replicate (Suc i) (CHR ''V'')) = length (replicate (Suc j) (CHR ''V''))"
      by (rule arg_cong)
    then show "i = j" by simp
  qed
  have a: "wf_dir [(''x'', File 1), (''__dftemp_A'', File 2)]" by code_simp
  have b: "set [''x'', ''__dftemp_A''] = set (listdir [(''x'', File 1), (''__dftemp_A'', File 2)])"
    by (simp add: listdir_def)
  have c: "renames [''x'', ''__dftemp_A''] (\<lambda>i. if i = 0 then ''A'' else replicate i (CHR ''B'')) ! 0
       = (''x'', ''__dftemp_A'')"
    by code_simp
  have d: "rename_two_phase [''x'', ''__dftemp_A''] (\<lambda>i. if i = 0 then ''A'' else replicate i (CHR ''B''))
        [(''x'', File 1), (''__dftemp_A'', File 2)]
       = Inl (FileNotFoundError, [(''__dftemp_B'', File 1)])"
    by code_simp
  have e: "rename_two_phase [''p'', ''q''] (\<lambda>i. if i = 0 then ''__dftemp_C'' else replicate i (CHR ''C''))
        [(''p'', File 1), (''q'', File 2)]
       = Inr ([(''p'', ''__dftemp_C''), (''q'', ''C'')], [(''C'', File 1)])"
    by code_simp
  have f: "rename_two_phase [''u''] (\<lambda>i. replicate (Suc i) (CHR ''V''))
        [(''u'', File 1), (''V'', File 2)]
       = Inr ([(''u'', ''V'')], [(''V'', File 1)])"
    by code_simp
  show ?thesis using inj1 inj2 inj3 a b c d e f by simp
qed

lemma length_renames: "length (renames items f) = 2 * length items"
  by (simp add: renames_def)

text \<open>
  C10, as amended. On a directory with distinct plain names none of which is reserved,
  for a list of distinct names of entries of it and a generator that is injective on the
  positions and gives plain names that are not reserved and belong to no entry outside
  the list, \<open>rename_two_phase\<close> issues the calls of \<open>renames\<close> in order, and before
  each of them all the calls before it have succeeded, the directory has as many entries
  as at the start, holding the same files and directories, and the destination of the
  call is the name of no entry.
\<close>

theorem rename_two_phase_never_overwrites:
  assumes "wf_dir d" and "distinct items" and "set items \<subseteq> set (listdir d)"
    and "\<forall>x \<in> set (listdir d). \<not> reserved x"
    and "inj_on f {..<length items}"
    and "\<forall>i < length items. plain_name (f i) \<and> \<not> reserved (f i)
           \<and> (f i \<in> set (listdir d) \<longrightarrow> f i \<in> set items)"
  shows "rename_two_phase items f d =
           (case run_renames (renames items f) d of
              Inl ed \<Rightarrow> Inl ed
            | Inr d' \<Rightarrow> Inr (zip items (map f [0..<length items]), d'))
     \<and> (\<forall>k \<le> length (renames items f).
          \<exists>dk. run_renames (take k (renames items f)) d = Inr dk
             \<and> length dk = length d
             \<and> mset (map snd dk) = mset (map snd d)
             \<and> (k < length (renames items f) \<longrightarrow>
                   snd (renames items f ! k) \<notin> set (listdir dk)))"
proof (rule conjI)
  show "rename_two_phase items f d =
           (case run_renames (renames items f) d of
              Inl ed \<Rightarrow> Inl ed
            | Inr d' \<Rightarrow> Inr (zip items (map f [0..<length items]), d'))"
    by (rule rename_two_phase_run)
next
  let ?rs = "renames items f"
  have q: "quiet ?rs d" by (rule clean_quiet [OF assms])
  have items_free: "\<forall>x \<in> set items. \<not> reserved x" using assms(3,4) by auto
  have finals_free: "\<forall>i < length items. \<not> reserved (f i)" using assms(6) by simp
  have ne: "\<forall>(s, t) \<in> set ?rs. s \<noteq> t"
    by (rule renames_not_same [OF items_free finals_free])
  show "\<forall>k \<le> length ?rs.
          \<exists>dk. run_renames (take k ?rs) d = Inr dk
             \<and> length dk = length d
             \<and> mset (map snd dk) = mset (map snd d)
             \<and> (k < length ?rs \<longrightarrow> snd (?rs ! k) \<notin> set (listdir dk))"
  proof (intro allI impI)
    fix k assume "k \<le> length ?rs"
    let ?dk = "apply_moves (take k ?rs) d"
    have run: "run_renames (take k ?rs) d = Inr ?dk"
      using quiet_run [OF assms(1) quiet_take [OF q]] by simp
    have fresh: "snd (?rs ! k) \<notin> set (listdir ?dk)" if k: "k < length ?rs"
    proof -
      obtain s t where st: "?rs ! k = (s, t)" by (cases "?rs ! k")
      have "(s, t) \<in> set ?rs" using k st nth_mem [of k ?rs] by simp
      then have "s \<noteq> t" using ne by blast
      then have "fst (?rs ! k) \<noteq> snd (?rs ! k)" using st by simp
      then show ?thesis by (rule quiet_nth_fresh [OF q k])
    qed
    have "length ?dk = length d" and "mset (map snd ?dk) = mset (map snd d)" by simp_all
    then show "\<exists>dk. run_renames (take k ?rs) d = Inr dk
             \<and> length dk = length d
             \<and> mset (map snd dk) = mset (map snd d)
             \<and> (k < length ?rs \<longrightarrow> snd (?rs ! k) \<notin> set (listdir dk))"
      using run fresh by blast
  qed
qed

theorem rename_two_phase_never_overwrites_witness:
  "\<exists>dk. run_renames (take 3 (renames [''b'', ''a''] folder_final_name))
           [(''a'', Dir []), (''b'', Dir [(''x.mp3'', File 7)])] = Inr dk
      \<and> length dk = length [(''a'', Dir []), (''b'', Dir [(''x.mp3'', File 7)])]
      \<and> mset (map snd dk) = mset (map snd [(''a'', Dir []), (''b'', Dir [(''x.mp3'', File 7)])])
      \<and> snd (renames [''b'', ''a''] folder_final_name ! 3) \<notin> set (listdir dk)"
proof -
  let ?items = "[''b'', ''a'']" and ?d = "[(''a'', Dir []), (''b'', Dir [(''x.mp3'', File 7)])]"
  have f0: "folder_final_name 0 = ''01''" and f1: "folder_final_name 1 = ''02''"
    by code_simp+
  have two: "i < length ?items \<longleftrightarrow> i = 0 \<or> i = 1" for i by auto
  have h1: "wf_dir ?d" by code_simp
  have h2: "distinct ?items" by simp
  have h3: "set ?items \<subseteq> set (listdir ?d)" by (simp add: listdir_def)
  have h4: "\<forall>x \<in> set (listdir ?d). \<not> reserved x" by code_simp
  have "{..<length ?items} = {0, 1}" by auto
  then have h5: "inj_on folder_final_name {..<length ?items}"
    using f0 f1 by (simp add: inj_on_def)
  have p: "plain_name ''01''" "plain_name ''02''" "\<not> reserved ''01''" "\<not> reserved ''02''"
    "''01'' \<notin> set (listdir ?d)" "''02'' \<notin> set (listdir ?d)"
    by code_simp+
  have h6: "\<forall>i < length ?items. plain_name (folder_final_name i) \<and> \<not> reserved (folder_final_name i)
              \<and> (folder_final_name i \<in> set (listdir ?d) \<longrightarrow> folder_final_name i \<in> set ?items)"
    using p f0 f1 unfolding two by auto
  have k: "(3::nat) \<le> length (renames ?items folder_final_name)"
    "(3::nat) < length (renames ?items folder_final_name)"
    by (simp_all add: length_renames)
  have all: "\<forall>k \<le> length (renames ?items folder_final_name).
          \<exists>dk. run_renames (take k (renames ?items folder_final_name)) ?d = Inr dk
             \<and> length dk = length ?d
             \<and> mset (map snd dk) = mset (map snd ?d)
             \<and> (k < length (renames ?items folder_final_name) \<longrightarrow>
                   snd (renames ?items folder_final_name ! k) \<notin> set (listdir dk))"
    using rename_two_phase_never_overwrites [OF h1 h2 h3 h4 h5 h6] by (rule conjunct2)
  have "\<exists>dk. run_renames (take 3 (renames ?items folder_final_name)) ?d = Inr dk
             \<and> length dk = length ?d
             \<and> mset (map snd dk) = mset (map snd ?d)
             \<and> ((3::nat) < length (renames ?items folder_final_name) \<longrightarrow>
                   snd (renames ?items folder_final_name ! 3) \<notin> set (listdir dk))"
    by (rule all [rule_format, OF k(1)])
  then show ?thesis using k(2) by simp
qed

text \<open>
  C10, as stated, fails in two ways. A final name may be reserved: with the items "x"
  and "y" and the final names "__dftemp_B" and "B", the third call renames
  "__dftemp___dftemp_B" to "__dftemp_B", the temporary name the second entry bears
  then; that file is replaced and the function returns with one entry left. And a final
  name may belong to an entry outside the list: with the item "s" beside a file "T" and
  the final name "T", the second call replaces that file.
\<close>

theorem reserved_final_name_counterexample:
  "distinct [''x'', ''y''] \<and> \<not> reserved ''x'' \<and> \<not> reserved ''y''
   \<and> inj (\<lambda>i. if i = 0 then ''__dftemp_B'' else replicate i (CHR ''B''))
   \<and> run_renames (take 2 (renames [''x'', ''y''] (\<lambda>i. if i = 0 then ''__dftemp_B'' else replicate i (CHR ''B''))))
        [(''x'', File 1), (''y'', File 2)]
       = Inr [(''__dftemp___dftemp_B'', File 1), (''__dftemp_B'', File 2)]
   \<and> renames [''x'', ''y''] (\<lambda>i. if i = 0 then ''__dftemp_B'' else replicate i (CHR ''B'')) ! 2
       = (''__dftemp___dftemp_B'', ''__dftemp_B'')
   \<and> rename_two_phase [''x'', ''y''] (\<lambda>i. if i = 0 then ''__dftemp_B'' else replicate i (CHR ''B''))
        [(''x'', File 1), (''y'', File 2)]
       = Inr ([(''x'', ''__dftemp_B''), (''y'', ''B'')], [(''B'', File 1)])
   \<and> \<not> reserved ''s'' \<and> inj (\<lambda>i. replicate (Suc i) (CHR ''T''))
   \<and> rename_two_phase [''s''] (\<lambda>i. replicate (Suc i) (CHR ''T''))
        [(''s'', File 1), (''T'', File 2)]
       = Inr ([(''s'', ''T'')], [(''T'', File 1)])"
proof -
  have inj: "inj (\<lambda>i. if i = 0 then ''__dftemp_B'' else replicate i (CHR ''B''))"
  proof (rule injI)
    fix i j :: nat
    assume eq: "(if i = 0 then ''__dftemp_B'' else replicate i (CHR ''B''))
                = (if j = 0 then ''__dftemp_B'' else replicate j (CHR ''B''))"
    show "i = j"
    proof (cases "i = 0")
      case True
      then show ?thesis using eq by (cases j) (auto split: if_splits)
    next
      case False
      then have "j \<noteq> 0" using eq by (cases i) (auto split: if_splits)
      then have "length (replicate i (CHR ''B'')) = length (replicate j (CHR ''B''))"
        using eq False by simp
      then show ?thesis by simp
    qed
  qed
  have inj2: "inj (\<lambda>i. replicate (Suc i) (CHR ''T''))"
  proof (rule injI)
    fix i j :: nat
    assume "replicate (Suc i) (CHR ''T'') = replicate (Suc j) (CHR ''T'')"
    then have "length (replicate (Suc i) (CHR ''T'')) = length (replicate (Suc j) (CHR ''T''))"
      by (rule arg_cong)
    then show "i = j" by simp
  qed
  have r: "\<not> reserved ''x''" "\<not> reserved ''y''" "\<not> reserved ''s''" by code_simp+
  have a: "run_renames (take 2 (renames [''x'', ''y''] (\<lambda>i. if i = 0 then ''__dftemp_B'' else replicate i (CHR ''B''))))
        [(''x'', File 1), (''y'', File 2)]
       = Inr [(''__dftemp___dftemp_B'', File 1), (''__dftemp_B'', File 2)]"
    by code_simp
  have b: "renames [''x'', ''y''] (\<lambda>i. if i = 0 then ''__dftemp_B'' else replicate i (CHR ''B'')) ! 2
       = (''__dftemp___dftemp_B'', ''__dftemp_B'')"
    by code_simp
  have c: "rename_two_phase [''x'', ''y''] (\<lambda>i. if i = 0 then ''__dftemp_B'' else replicate i (CHR ''B''))
        [(''x'', File 1), (''y'', File 2)]
       = Inr ([(''x'', ''__dftemp_B''), (''y'', ''B'')], [(''B'', File 1)])"
    by code_simp
  have d: "rename_two_phase [''s''] (\<lambda>i. replicate (Suc i) (CHR ''T''))
        [(''s'', File 1), (''T'', File 2)]
       = Inr ([(''s'', ''T'')], [(''T'', File 1)])"
    by code_simp
  show ?thesis using inj inj2 r a b c d by simp
qed

section \<open>Properties of the sort and of the driver\<close>

lemma make_parts_error: "make_parts ps acc = Inl e \<Longrightarrow> e = ValueError"
proof (induction ps arbitrary: acc)
  case Nil
  then show ?case by simp
next
  case (Cons p ps)
  then show ?case
    by (auto simp: py_int_def split: if_splits sum.splits)
qed

lemma natural_sort_key_error: "natural_sort_key x = Inl e \<Longrightarrow> e = ValueError"
  unfolding natural_sort_key_def by (rule make_parts_error)

lemma compute_keys_Inr:
  "compute_keys names = Inr ks \<Longrightarrow>
     map snd ks = names \<and> (\<forall>(k, x) \<in> set ks. natural_sort_key x = Inr k)"
proof (induction names arbitrary: ks)
  case Nil
  then show ?case by simp
next
  case (Cons x xs)
  from Cons.prems obtain k ks' where k: "natural_sort_key x = Inr k"
    and ks': "compute_keys xs = Inr ks'" and ks: "ks = (k, x) # ks'"
    by (auto split: sum.splits)
  show ?case using Cons.IH [OF ks'] k ks by simp
qed

lemma compute_keys_Inl:
  "compute_keys names = Inl e \<Longrightarrow> e = ValueError \<and> (\<exists>x \<in> set names. natural_sort_key x = Inl ValueError)"
proof (induction names)
  case Nil
  then show ?case by simp
next
  case (Cons x xs)
  show ?case
  proof (cases "natural_sort_key x")
    case (Inl e')
    then have "e' = ValueError" by (rule natural_sort_key_error)
    then show ?thesis using Cons.prems Inl by simp
  next
    case (Inr k)
    then have "compute_keys xs = Inl e" using Cons.prems by (simp split: sum.splits)
    then show ?thesis using Cons.IH by simp
  qed
qed

lemma compute_keys_all:
  "\<forall>x \<in> set names. \<exists>k. natural_sort_key x = Inr k \<Longrightarrow> \<exists>ks. compute_keys names = Inr ks"
  by (induction names) (auto split: sum.splits)

lemma insort_lt_shaped:
  assumes "key_shape (fst x)" and "\<forall>y \<in> set ys. key_shape (fst y)"
  shows "\<exists>zs. insort_lt x ys = Inr zs \<and> mset zs = mset (x # ys)"
  using assms(2)
proof (induction ys)
  case Nil
  show ?case by simp
next
  case (Cons y ys)
  from Cons.prems have sy: "key_shape (fst y)" and rest: "\<forall>y \<in> set ys. key_shape (fst y)"
    by simp_all
  obtain b where b: "key_lt (fst y) (fst x) = Inr b"
    using key_lt_shape [OF sy assms(1)] by blast
  from Cons.IH [OF rest] obtain zs where zs: "insort_lt x ys = Inr zs" "mset zs = mset (x # ys)"
    by blast
  show ?case using b zs by (cases b) simp_all
qed

lemma sort_keyed_shaped:
  assumes "\<forall>y \<in> set ks. key_shape (fst y)"
  shows "\<exists>ys. sort_keyed ks = Inr ys \<and> mset ys = mset ks"
  using assms
proof (induction ks)
  case Nil
  show ?case by simp
next
  case (Cons x xs)
  from Cons.prems have sx: "key_shape (fst x)" and rest: "\<forall>y \<in> set xs. key_shape (fst y)"
    by simp_all
  from Cons.IH [OF rest] obtain ys where ys: "sort_keyed xs = Inr ys" "mset ys = mset xs"
    by blast
  have "\<forall>y \<in> set ys. key_shape (fst y)"
    using rest ys(2) by (metis set_mset_mset)
  from insort_lt_shaped [OF sx this] obtain zs where "insort_lt x ys = Inr zs" "mset zs = mset (x # ys)"
    by blast
  then show ?case using ys by simp
qed

lemma natural_sort_cases:
  "(\<exists>ys. natural_sort names = Inr ys \<and> mset ys = mset names
          \<and> (\<forall>x \<in> set names. \<exists>k. natural_sort_key x = Inr k))
   \<or> (natural_sort names = Inl ValueError \<and> (\<exists>x \<in> set names. natural_sort_key x = Inl ValueError))"
proof (cases "compute_keys names")
  case (Inl e)
  then show ?thesis using compute_keys_Inl [OF Inl] by (simp add: natural_sort_def)
next
  case (Inr ks)
  from compute_keys_Inr [OF Inr] have names: "map snd ks = names"
    and keys: "\<forall>(k, x) \<in> set ks. natural_sort_key x = Inr k"
    by simp_all
  have shaped: "\<forall>y \<in> set ks. key_shape (fst y)"
  proof
    fix y assume "y \<in> set ks"
    then have "natural_sort_key (snd y) = Inr (fst y)" using keys by (cases y) auto
    then show "key_shape (fst y)" by (rule natural_sort_key_shape)
  qed
  from sort_keyed_shaped [OF shaped] obtain ys where ys: "sort_keyed ks = Inr ys" "mset ys = mset ks"
    by blast
  have "mset (map snd ys) = mset names"
    using ys(2) names by (metis mset_map)
  moreover have "\<forall>x \<in> set names. \<exists>k. natural_sort_key x = Inr k"
  proof
    fix x assume "x \<in> set names"
    then obtain y where "y \<in> set ks" "snd y = x" using names by auto
    then show "\<exists>k. natural_sort_key x = Inr k" using keys by (cases y) auto
  qed
  ultimately show ?thesis using Inr ys(1) by (simp add: natural_sort_def)
qed

lemma natural_sort_Inr:
  assumes "natural_sort names = Inr ys"
  shows "mset ys = mset names" and "\<forall>x \<in> set names. \<exists>k. natural_sort_key x = Inr k"
  using natural_sort_cases [of names] assms by auto

lemma natural_sort_Inl: "natural_sort names = Inl e \<Longrightarrow> e = ValueError"
  using natural_sort_cases [of names] by auto

lemma natural_sort_length: "natural_sort names = Inr ys \<Longrightarrow> length ys = length names"
  using natural_sort_Inr(1) [of names ys] by (metis size_mset)

lemma natural_sort_set: "natural_sort names = Inr ys \<Longrightarrow> set ys = set names"
  using natural_sort_Inr(1) [of names ys] by (metis set_mset_mset)

lemma natural_sort_distinct: "natural_sort names = Inr ys \<Longrightarrow> distinct ys = distinct names"
  using natural_sort_Inr(1) [of names ys] by (metis mset_eq_imp_distinct_iff)

text \<open>
  C5. A root with more than 99 immediate subdirectories ends the run with status 1 and
  one message on the error stream, nothing on standard output, and the tree as it was:
  no rename is performed. The message is the one about the number of folders, unless the
  sort of the folder names raised before the count was looked at (a folder name without
  a key), in which case it is the traceback of that ValueError.
\<close>

theorem too_many_folders_exit:
  assumes "99 < length (filter (\<lambda>(name, n). isdir n) entries)"
  shows "status (process_sd_card (Some (Dir entries))) = 1
     \<and> stdout (process_sd_card (Some (Dir entries))) = []
     \<and> tree (process_sd_card (Some (Dir entries))) = Some (Dir entries)
     \<and> (stderr (process_sd_card (Some (Dir entries)))
            = [Too_many_folders (length (filter (\<lambda>(name, n). isdir n) entries)) 99]
         \<or> stderr (process_sd_card (Some (Dir entries))) = [Traceback ValueError])
     \<and> ((\<forall>(name, n) \<in> set entries. isdir n \<longrightarrow> (\<exists>k. natural_sort_key name = Inr k))
          \<longrightarrow> stderr (process_sd_card (Some (Dir entries)))
                = [Too_many_folders (length (filter (\<lambda>(name, n). isdir n) entries)) 99])"
proof -
  let ?names = "map fst (filter (\<lambda>(name, n). isdir n) entries)"
  let ?r = "process_sd_card (Some (Dir entries))"
  have len: "length ?names = length (filter (\<lambda>(name, n). isdir n) entries)" by simp
  show ?thesis
  proof (cases "natural_sort ?names")
    case (Inl e)
    then have e: "e = ValueError" by (rule natural_sort_Inl)
    have r: "?r = uncaught ValueError [] (Some (Dir entries))"
      using Inl e by (simp add: process_sd_card_def collect_folders_def)
    have "\<exists>x \<in> set ?names. natural_sort_key x = Inl ValueError"
      using natural_sort_cases [of ?names] Inl by auto
    then obtain name n where "(name, n) \<in> set entries" "isdir n" "natural_sort_key name = Inl ValueError"
      by auto
    then have "\<not> (\<forall>(name, n) \<in> set entries. isdir n \<longrightarrow> (\<exists>k. natural_sort_key name = Inr k))"
      by force
    then show ?thesis unfolding r by (simp add: uncaught_def)
  next
    case (Inr folders)
    have l: "length folders = length (filter (\<lambda>(name, n). isdir n) entries)"
      using natural_sort_length [OF Inr] len by simp
    then have "folders \<noteq> []" and "MAX_FOLDERS < length folders"
      using assms by (auto simp: MAX_FOLDERS_def)
    then have r: "?r = sys_exit_1 (Too_many_folders (length folders) MAX_FOLDERS) [] (Some (Dir entries))"
      using Inr by (simp add: process_sd_card_def collect_folders_def)
    show ?thesis unfolding r by (simp add: sys_exit_1_def l MAX_FOLDERS_def)
  qed
qed

theorem too_many_folders_exit_witness:
  "99 < length (filter (\<lambda>(name, n). isdir n) (map (\<lambda>i. (str_nat i, Dir [])) [0..<100]))
   \<and> status (process_sd_card (Some (Dir (map (\<lambda>i. (str_nat i, Dir [])) [0..<100])))) = 1
   \<and> tree (process_sd_card (Some (Dir (map (\<lambda>i. (str_nat i, Dir [])) [0..<100]))))
       = Some (Dir (map (\<lambda>i. (str_nat i, Dir [])) [0..<100]))"
proof -
  have "filter (\<lambda>(name, n). isdir n) (map (\<lambda>i. (str_nat i, Dir [])) xs)
        = map (\<lambda>i. (str_nat i, Dir [])) xs" for xs :: "nat list"
    by (induction xs) simp_all
  then have h: "99 < length (filter (\<lambda>(name, n). isdir n) (map (\<lambda>i. (str_nat i, Dir [])) [0..<100]))"
    by simp
  show ?thesis using too_many_folders_exit [OF h] h by simp
qed

end
